theory Spec2Isabelle
  imports
    Complex_Main
    "HOL-Library.AList"
    "HOL-Library.Char_ord"
    "HOL-Library.List_Lexorder"
    "HOL-Library.Multiset"
    "HOL-Library.Product_Lexorder"
begin

section \<open>Python values used by the search engine\<close>

text \<open>
  Strings are \<^typ>\<open>string\<close> (lists of bytes, so the string functions below are those
  of Python on ASCII text); Python integers are \<^typ>\<open>int\<close>.
  \<open>float("inf")\<close> is a value of its own, \<open>PInf\<close>. The true division of two
  integers is kept as the exact quotient: Python holds the double nearest to it. The
  arithmetic of doubles is a parameter of the model, the record \<open>floats\<close> below.
  An exception is a value of \<open>py_error\<close>, and a function that can raise returns a sum
  with the exception on the left.
\<close>

datatype py_error = ValueError | ZeroDivisionError | AssertionError | AttributeError | IndexError

datatype 'a ext = Num 'a | PInf

text \<open>\<open>sum_int < best_distance\<close> and \<open>sum_int == best_distance\<close>, an integer against
  a value that is \<open>inf\<close> or an integer.\<close>

fun ext_less :: "int \<Rightarrow> int ext \<Rightarrow> bool" where
  "ext_less s PInf = True"
| "ext_less s (Num b) = (s < b)"

fun ext_eq :: "int \<Rightarrow> int ext \<Rightarrow> bool" where
  "ext_eq s PInf = False"
| "ext_eq s (Num b) = (s = b)"

text \<open>\<open>best_distance / n\<close> for a positive integer \<open>n\<close>: true division.\<close>

fun ext_div :: "int ext \<Rightarrow> nat \<Rightarrow> rat ext" where
  "ext_div PInf n = PInf"
| "ext_div (Num b) n = Num (rat_of_int b / rat_of_nat n)"

text \<open>
  A Python \<open>dict\<close> keeps its keys in insertion order: here an association list in
  which a key occurs once. \<^const>\<open>AList.update\<close> is \<open>d[k] = v\<close>: an existing key keeps
  its place and takes the new value, a new key goes to the end. \<open>py_dict\<close> is
  \<open>dict(pairs)\<close>.
\<close>

definition py_dict :: "('k \<times> 'v) list \<Rightarrow> ('k \<times> 'v) list" where
  "py_dict kvs = fold (\<lambda>(k, v). AList.update k v) kvs []"

subsection \<open>Floats\<close>

text \<open>
  The finite doubles are a linearly ordered type \<open>'f\<close>, compared as Python compares
  them. \<open>fl q\<close> is the double nearest to the rational \<open>q\<close>: what the conversion of an
  integer, the literal \<open>0.1\<close> and the true division of two integers give. \<open>fl_add\<close>,
  \<open>fl_mul\<close> and \<open>fl_div\<close> are \<open>+\<close>, \<open>*\<close> and \<open>/\<close> on doubles, and \<open>fl_round\<close> is
  \<open>round(x, 10)\<close>. Nothing is assumed of them, so what is proved holds of the
  doubles as of any other arithmetic. The positions of an index are taken to lie in
  the range of the doubles: beyond it the division of line 111 raises
  \<open>OverflowError\<close>, which the model leaves out.
\<close>

record 'f floats =
  fl :: "rat \<Rightarrow> 'f"
  fl_add :: "'f \<Rightarrow> 'f \<Rightarrow> 'f"
  fl_mul :: "'f \<Rightarrow> 'f \<Rightarrow> 'f"
  fl_div :: "'f \<Rightarrow> 'f \<Rightarrow> 'f"
  fl_round :: "'f \<Rightarrow> 'f"

text \<open>\<open>-x\<close> as a sort key: the negation of a double is exact and turns the order
  round, so \<open>Neg x\<close> is \<open>x\<close> compared the other way.\<close>

datatype 'a neg = Neg 'a

instantiation neg :: (linorder) linorder
begin

definition less_eq_neg :: "'a neg \<Rightarrow> 'a neg \<Rightarrow> bool" where
  "less_eq_neg x y = (case x of Neg a \<Rightarrow> (case y of Neg b \<Rightarrow> b \<le> a))"

definition less_neg :: "'a neg \<Rightarrow> 'a neg \<Rightarrow> bool" where
  "less_neg x y = (case x of Neg a \<Rightarrow> (case y of Neg b \<Rightarrow> b < a))"

instance
  by standard (auto simp: less_eq_neg_def less_neg_def split: neg.splits)

end


subsection \<open>Strings\<close>

definition newline :: char where
  "newline = CHR 0x0A"

definition is_digit :: "char \<Rightarrow> bool" where
  "is_digit c = (CHR ''0'' \<le> c \<and> c \<le> CHR ''9'')"

definition is_lower :: "char \<Rightarrow> bool" where
  "is_lower c = (CHR ''a'' \<le> c \<and> c \<le> CHR ''z'')"

definition is_upper :: "char \<Rightarrow> bool" where
  "is_upper c = (CHR ''A'' \<le> c \<and> c \<le> CHR ''Z'')"

definition is_alnum :: "char \<Rightarrow> bool" where
  "is_alnum c = (is_digit c \<or> is_lower c \<or> is_upper c)"

text \<open>The whitespace \<open>str.strip\<close> removes: tab, line feed, vertical tab, form
  feed, carriage return, the four separators \<open>0x1C\<close> to \<open>0x1F\<close> and space.\<close>

definition is_space :: "char \<Rightarrow> bool" where
  "is_space c = ((CHR 0x09 \<le> c \<and> c \<le> CHR 0x0D) \<or> (CHR 0x1C \<le> c \<and> c \<le> CHR 0x20))"

text \<open>\<open>s.isdigit()\<close> and \<open>s.isalnum()\<close>: false on the empty string.\<close>

definition isdigit :: "string \<Rightarrow> bool" where
  "isdigit s = (s \<noteq> [] \<and> list_all is_digit s)"

definition isalnum :: "string \<Rightarrow> bool" where
  "isalnum s = (s \<noteq> [] \<and> list_all is_alnum s)"

definition lower :: "string \<Rightarrow> string" where
  "lower s = map (\<lambda>c. if is_upper c then char_of (of_char c + (32::nat)) else c) s"

definition strip :: "string \<Rightarrow> string" where
  "strip s = rev (dropWhile is_space (rev (dropWhile is_space s)))"

text \<open>\<open>s.replace(ab, "")\<close> for a pattern \<open>ab\<close> of two characters: the occurrences
  are removed from the left, and they do not overlap.\<close>

fun remove2 :: "char \<Rightarrow> char \<Rightarrow> string \<Rightarrow> string" where
  "remove2 a b (x # y # r) =
     (if x = a \<and> y = b then remove2 a b r else x # remove2 a b (y # r))"
| "remove2 a b r = r"

text \<open>\<open>s.split(d)\<close> for a separator of one character: never the empty list.\<close>

fun split_char :: "char \<Rightarrow> string \<Rightarrow> string list" where
  "split_char d [] = [[]]"
| "split_char d (c # cs) =
     (if c = d then [] # split_char d cs
      else (case split_char d cs of [] \<Rightarrow> [[c]] | w # ws \<Rightarrow> (c # w) # ws))"

text \<open>\<open>s.splitlines()\<close>: the lines without their terminators; a carriage return
  followed by a line feed is one terminator, and a terminator at the very end opens no
  further line.\<close>

definition is_linebreak :: "char \<Rightarrow> bool" where
  "is_linebreak c = ((CHR 0x0A \<le> c \<and> c \<le> CHR 0x0D) \<or> (CHR 0x1C \<le> c \<and> c \<le> CHR 0x1E))"

fun splitlines :: "string \<Rightarrow> string list" where
  "splitlines [] = []"
| "splitlines [c] = (if is_linebreak c then [[]] else [[c]])"
| "splitlines (c # d # cs) =
     (if c = CHR 0x0D \<and> d = CHR 0x0A then [] # splitlines cs
      else if is_linebreak c then [] # splitlines (d # cs)
      else (case splitlines (d # cs) of [] \<Rightarrow> [[c]] | l # ls \<Rightarrow> (c # l) # ls))"

text \<open>\<open>f.readlines()\<close> on the text of a file opened in text mode, where every line
  ending has become a line feed: the lines with their line feed, the last one without
  when the text does not end in one.\<close>

fun readlines :: "string \<Rightarrow> string list" where
  "readlines [] = []"
| "readlines (c # cs) =
     (if c = newline then [c] # readlines cs
      else (case readlines cs of [] \<Rightarrow> [[c]] | l # ls \<Rightarrow> (c # l) # ls))"

text \<open>\<open>int(s)\<close> on a string: surrounding whitespace is skipped (tab to carriage
  return, and space), then an optional sign and decimal digits, with single underscores
  allowed between digits. \<open>None\<close> is the \<open>ValueError\<close>.\<close>

definition is_int_space :: "char \<Rightarrow> bool" where
  "is_int_space c = ((CHR 0x09 \<le> c \<and> c \<le> CHR 0x0D) \<or> c = CHR 0x20)"

definition digit_val :: "char \<Rightarrow> int" where
  "digit_val c = int (of_char c) - 48"

fun digits_acc :: "int \<Rightarrow> string \<Rightarrow> int option" where
  "digits_acc n [] = Some n"
| "digits_acc n [c] = (if is_digit c then Some (10 * n + digit_val c) else None)"
| "digits_acc n (c # d # r) =
     (if is_digit c then digits_acc (10 * n + digit_val c) (d # r)
      else if c = CHR ''_'' \<and> is_digit d then digits_acc n (d # r)
      else None)"

definition py_digits :: "string \<Rightarrow> int option" where
  "py_digits s = (case s of [] \<Rightarrow> None | c # r \<Rightarrow> if is_digit c then digits_acc 0 s else None)"

definition py_int :: "string \<Rightarrow> int option" where
  "py_int s0 =
     (case rev (dropWhile is_int_space (rev (dropWhile is_int_space s0))) of
        [] \<Rightarrow> None
      | c # r \<Rightarrow>
          if c = CHR ''-'' then map_option uminus (py_digits r)
          else if c = CHR ''+'' then py_digits r
          else py_digits (c # r))"

text \<open>Rounding a rational to ten decimals, a tie going to the even one: the
  \<open>round(x, 10)\<close> of the exact arithmetic that stands in for doubles when the model is
  run (section \<open>An environment to run the model\<close>).\<close>

definition round10 :: "rat \<Rightarrow> rat" where
  "round10 x =
     (let y = x * 10 ^ 10;
          f = \<lfloor>y\<rfloor>;
          r = y - rat_of_int f;
          n = (if r < 1 / 2 then f else if 1 / 2 < r then f + 1
               else if even f then f else f + 1)
      in rat_of_int n / 10 ^ 10)"

section \<open>The tokenizer and normalizer (index.py and search.py)\<close>

text \<open>
  The NLTK functions are parameters of the model: the lemmatizer, called with no part
  of speech, with \<open>wordnet.NOUN\<close> and with \<open>wordnet.VERB\<close>, and the two tokenizers.
  So is the order in which Python iterates over a \<open>set\<close> of strings: \<open>set_order\<close>
  takes the elements in the order they were put into the set and gives the order in
  which the set yields them. Python keeps that order for the life of a process, but the
  hash of a string, on which it rests, is drawn anew for each process.
\<close>

datatype wordnet_pos = NOUN | VERB

record env =
  lemmatize :: "string \<Rightarrow> wordnet_pos option \<Rightarrow> string"
  word_tokenize :: "string \<Rightarrow> string list"
  sent_tokenize :: "string \<Rightarrow> string list"
  set_order :: "string list \<Rightarrow> string list"


text \<open>\<open>find_root\<close> (index.py lines 22 to 28, search.py lines 26 to 32, the same
  text): the set of the three reductions, as the list its iteration yields.\<close>

definition find_root :: "env \<Rightarrow> string \<Rightarrow> string list" where
  "find_root e word =
     set_order e [lemmatize e word None, lemmatize e word (Some NOUN),
                  lemmatize e word (Some VERB)]"

text \<open>\<open>re.fullmatch(r"[a-z]\.[a-z]\.", token)\<close>.\<close>

definition is_abbreviation :: "string \<Rightarrow> bool" where
  "is_abbreviation token =
     (case token of
        [a, p, b, q] \<Rightarrow> is_lower a \<and> p = CHR ''.'' \<and> is_lower b \<and> q = CHR ''.''
      | _ \<Rightarrow> False)"

text \<open>\<open>normalize_token\<close> (index.py lines 31 to 60, search.py lines 35 to 64, the
  same text).\<close>

definition normalize_token :: "env \<Rightarrow> string \<Rightarrow> string list" where
  "normalize_token e token0 =
     (let token = lower token0;
          token = remove2 CHR ''s'' CHR 0x27 (remove2 CHR 0x27 CHR ''s'' token)
      in if is_abbreviation token then [filter (\<lambda>c. c \<noteq> CHR ''.'') token]
         else if isdigit token then [token]
         else if CHR ''-'' \<in> set token then
           (let splited_token = split_char CHR ''-'' token
            in if length (hd splited_token) < 3 then find_root e token
               else concat (map (\<lambda>i. if isalnum i then find_root e i else []) splited_token))
         else if isalnum token then find_root e token
         else [])"

text \<open>\<open>re.sub(r"'s|s'", "", sentence)\<close>: one pass from the left, either marker
  removed where it stands.\<close>

fun strip_possessive :: "string \<Rightarrow> string" where
  "strip_possessive (x # y # r) =
     (if (x = CHR 0x27 \<and> y = CHR ''s'') \<or> (x = CHR ''s'' \<and> y = CHR 0x27)
      then strip_possessive r else x # strip_possessive (y # r))"
| "strip_possessive r = r"

text \<open>\<open>re.sub(r"(\d{1,3})(,\d{3})+", ...)\<close>, the commas of a match removed. A match
  starts where a run of one to three digits is followed by a comma and three digits; it
  goes on through every further comma and three digits. \<open>comma_groups\<close> reads those
  groups: their digits, and the text after them.\<close>

fun comma_groups :: "string \<Rightarrow> string \<times> string" where
  "comma_groups (c # d1 # d2 # d3 # r) =
     (if c = CHR '','' \<and> is_digit d1 \<and> is_digit d2 \<and> is_digit d3
      then (case comma_groups r of (g, r') \<Rightarrow> (d1 # d2 # d3 # g, r'))
      else ([], c # d1 # d2 # d3 # r))"
| "comma_groups r = ([], r)"

lemma comma_groups_length: "length (snd (comma_groups s)) \<le> length s"
  by (induction s rule: comma_groups.induct) (auto split: prod.splits)

function strip_thousands :: "string \<Rightarrow> string" where
  "strip_thousands [] = []"
| "strip_thousands (c # cs) =
     (let run = takeWhile is_digit (c # cs);
          groups = comma_groups (dropWhile is_digit (c # cs))
      in if 1 \<le> length run \<and> length run \<le> 3 \<and> fst groups \<noteq> []
         then run @ fst groups @ strip_thousands (snd groups)
         else c # strip_thousands cs)"
  by pat_completeness auto
termination
proof (relation "measure length")
  show "wf (measure length)" by simp
next
  fix c :: char and cs :: string and run groups
  assume g: "groups = comma_groups (dropWhile is_digit (c # cs))"
    and r: "run = takeWhile is_digit (c # cs)"
    and c: "1 \<le> length run \<and> length run \<le> 3 \<and> fst groups \<noteq> []"
  have "length (snd groups) \<le> length (dropWhile is_digit (c # cs))"
    unfolding g by (rule comma_groups_length)
  moreover have "length (dropWhile is_digit (c # cs)) < length (c # cs)"
    using c r length_dropWhile_le [of is_digit cs] by (auto split: if_splits)
  ultimately show "(snd groups, c # cs) \<in> measure length" by simp
next
  fix c :: char and cs :: string and run groups
  show "(cs, c # cs) \<in> measure length" by simp
qed

text \<open>index.py, \<open>preprocess_sentence\<close> (lines 63 to 66) and \<open>tokenize_sentence\<close>
  (lines 69 to 72).\<close>

definition index_preprocess_sentence :: "string \<Rightarrow> string" where
  "index_preprocess_sentence sentence = strip_thousands (strip_possessive sentence)"

definition tokenize_sentence :: "env \<Rightarrow> string \<Rightarrow> string list" where
  "tokenize_sentence e sentence = concat (map (normalize_token e) (word_tokenize e sentence))"

text \<open>search.py, \<open>preprocess_sentence\<close> (lines 67 to 75). \<open>dict.fromkeys(terms)\<close>
  puts the terms into a dictionary one after the other, and \<open>list\<close> reads its keys.\<close>

definition dict_fromkeys :: "'k list \<Rightarrow> ('k \<times> unit) list" where
  "dict_fromkeys ks = fold (\<lambda>k. AList.update k ()) ks []"

definition preprocess_sentence :: "env \<Rightarrow> string \<Rightarrow> string list" where
  "preprocess_sentence e sentence0 =
     (let sentence = strip_thousands (strip_possessive sentence0);
          terms = concat (map (normalize_token e) (word_tokenize e sentence))
      in map fst (dict_fromkeys terms))"

section \<open>search.py: the shortest-window search\<close>

type_synonym chosen = "(string \<times> int) list"

text \<open>Lines 93 to 95: the sum of the gaps between the sorted chosen positions.\<close>

definition sum_int :: "int list \<Rightarrow> int" where
  "sum_int c0 =
     (let c = sort c0
      in sum_list (map (\<lambda>i. c ! (i + 1) - c ! i - 1) [0..<length c - 1]))"

text \<open>Lines 98 to 103: the adjacent pairs of the query, in its own order, whose
  chosen positions increase.\<close>

definition pairs_num :: "string list \<Rightarrow> chosen \<Rightarrow> int" where
  "pairs_num search_term position_dic =
     fold (\<lambda>i n.
        case (map_of position_dic (search_term ! i),
              map_of position_dic (search_term ! (i + 1))) of
          (Some p1, Some p2) \<Rightarrow> if p1 < p2 then n + 1 else n
        | _ \<Rightarrow> n)
       [0..<length search_term - 1] 0"

text \<open>Lines 79 and 80.\<close>

definition match_word :: "string list \<Rightarrow> (string \<rightharpoonup> int list) \<Rightarrow> string list" where
  "match_word search_term position = filter (\<lambda>t. position t \<noteq> None) search_term"

definition match_list :: "string list \<Rightarrow> (string \<rightharpoonup> int list) \<Rightarrow> int list list" where
  "match_list search_term position =
     map (\<lambda>t. the (position t)) (match_word search_term position)"

text \<open>Lines 91 to 109: the body of the loop over the combinations. The state is
  \<open>(best_distance, max_number, best_position)\<close>; \<open>best_position\<close> starts as \<open>None\<close>.\<close>

definition update_best ::
  "string list \<Rightarrow> string list \<Rightarrow> int list \<Rightarrow>
   int ext \<times> int \<times> chosen option \<Rightarrow> int ext \<times> int \<times> chosen option" where
  "update_best search_term mw c =
     (\<lambda>(best_distance, max_number, best_position).
        let position_dic = py_dict (zip mw c);
            s = sum_int c;
            n = pairs_num search_term position_dic
        in if ext_less s best_distance \<or> (ext_eq s best_distance \<and> n > max_number)
           then (Num s, n, Some position_dic)
           else (best_distance, max_number, best_position))"

text \<open>Lines 78 to 112. \<open>itertools.product\<close> enumerates the combinations with the
  last list varying fastest, as \<^const>\<open>product_lists\<close> does.\<close>

definition shortest_distance ::
  "string list \<Rightarrow> (string \<rightharpoonup> int list) \<Rightarrow> rat ext \<times> int \<times> chosen option" where
  "shortest_distance search_term position =
     (let mw = match_word search_term position;
          ml = match_list search_term position
      in if mw = [] then (PInf, 0, Some [])
         else
           (case fold (update_best search_term mw) (product_lists ml) (PInf, - 1, None) of
              (best_distance, max_number, best_position) \<Rightarrow>
                (ext_div best_distance (max (length mw - 1) 1), max_number, best_position)))"

section \<open>search.py: ranking\<close>

text \<open>
  A posting is \<open>[id, position, line]\<close>; the inverted index maps a term to its list of
  postings. \<open>match\<close> (line 124) is a dictionary from a document id to a dictionary
  from a term to the list of the \<open>(position, line)\<close> pairs of that term in that
  document; both keep their keys in insertion order.
\<close>

type_synonym posting = "string \<times> int \<times> int"

type_synonym index = "string \<rightharpoonup> posting list"

type_synonym doc_match = "(string \<times> (int \<times> int) list) list"

type_synonym 'f ranked_entry = "string \<times> 'f \<times> chosen option"

text \<open>Lines 10 to 12: \<open>1.0\<close>, \<open>1.0\<close> and \<open>0.1\<close>.\<close>

definition ALPHA :: "'f floats \<Rightarrow> 'f" where "ALPHA ar = fl ar 1"

definition BETA :: "'f floats \<Rightarrow> 'f" where "BETA ar = fl ar 1"

definition GAMMA :: "'f floats \<Rightarrow> 'f" where "GAMMA ar = fl ar (1 / 10)"

text \<open>Lines 145 to 147: \<open>ALPHA * coverage + BETA * cur_score + GAMMA * pairs_num\<close>,
  the integer \<open>pairs_num\<close> converted to a double.\<close>

definition final_score :: "'f floats \<Rightarrow> 'f \<Rightarrow> 'f \<Rightarrow> int \<Rightarrow> 'f" where
  "final_score ar coverage cur_score pairs =
     fl_add ar (fl_add ar (fl_mul ar (ALPHA ar) coverage) (fl_mul ar (BETA ar) cur_score))
       (fl_mul ar (GAMMA ar) (fl ar (rat_of_int pairs)))"

text \<open>Line 128, \<open>match[id][t].append((pos, line))\<close> on the two nested
  \<open>defaultdict\<close>s.\<close>

definition add_match ::
  "string \<Rightarrow> string \<Rightarrow> int \<times> int \<Rightarrow> (string \<times> doc_match) list \<Rightarrow> (string \<times> doc_match) list" where
  "add_match doc_id t pl m =
     (let terms = (case map_of m doc_id of None \<Rightarrow> [] | Some ts \<Rightarrow> ts);
          occ = (case map_of terms t of None \<Rightarrow> [] | Some l \<Rightarrow> l)
      in AList.update doc_id (AList.update t (occ @ [pl]) terms) m)"

text \<open>Lines 124 to 128.\<close>

definition collect_match :: "index \<Rightarrow> string list \<Rightarrow> (string \<times> doc_match) list" where
  "collect_match idx search_term =
     fold (\<lambda>t m.
        case idx t of
          None \<Rightarrow> m
        | Some ps \<Rightarrow> fold (\<lambda>(doc_id, pos, line). add_match doc_id t (pos, line)) ps m)
       search_term []"

text \<open>Lines 132 to 149, the body of the loop over \<open>match.items()\<close>. The coverage
  and the average distance are true divisions of integers. In the branch of one matched
  term \<open>cur_score\<close> and \<open>pairs_num\<close> are the integer 0. The division of line 142
  raises when \<open>1 + avg_distance\<close> is zero, and \<open>1 / (1 + inf)\<close> is zero.\<close>

definition score_doc ::
  "'f floats \<Rightarrow> string list \<Rightarrow> string \<times> doc_match \<Rightarrow> py_error + 'f ranked_entry" where
  "score_doc ar search_term = (\<lambda>(doc_id, pos).
     let match_term = map fst pos;
         coverage = fl ar (rat_of_nat (length match_term) / rat_of_nat (length search_term))
     in if length match_term = 1 then
          (case map_of pos (match_term ! 0) of
             Some ((p, l) # _) \<Rightarrow>
               Inr (doc_id, final_score ar coverage (fl ar 0) 0, Some [(match_term ! 0, p)])
           | _ \<Rightarrow> Inl IndexError)
        else
          (let position = map_of (map (\<lambda>(t, occ). (t, map fst occ)) pos)
           in case shortest_distance search_term position of
             (avg_distance, pairs, chosen) \<Rightarrow>
               (case avg_distance of
                  PInf \<Rightarrow> Inr (doc_id, final_score ar coverage (fl ar 0) pairs, chosen)
                | Num a \<Rightarrow>
                    (let d = fl_add ar (fl ar 1) (fl ar a)
                     in if d = fl ar 0 then Inl ZeroDivisionError
                        else Inr (doc_id,
                                  final_score ar coverage (fl_div ar (fl ar 1) d) pairs,
                                  chosen)))))"

text \<open>A loop that appends one result per element and stops at the first
  exception.\<close>

fun collect :: "('a \<Rightarrow> py_error + 'b) \<Rightarrow> 'a list \<Rightarrow> py_error + 'b list" where
  "collect f [] = Inr []"
| "collect f (x # xs) =
     (case f x of
        Inl err \<Rightarrow> Inl err
      | Inr y \<Rightarrow> (case collect f xs of Inl err \<Rightarrow> Inl err | Inr ys \<Rightarrow> Inr (y # ys)))"

text \<open>Lines 152 to 155: the first entry of an id, or a later one with a higher
  score.\<close>

definition keep_highest ::
  "('f::linorder) ranked_entry \<Rightarrow> 'f ranked_entry list \<Rightarrow> 'f ranked_entry list" where
  "keep_highest = (\<lambda>(doc_id, score, chosen) unique.
     case map_of unique doc_id of
       None \<Rightarrow> AList.update doc_id (score, chosen) unique
     | Some (s0, c0) \<Rightarrow>
         if score > s0 then AList.update doc_id (score, chosen) unique else unique)"

definition unique_rank :: "('f::linorder) ranked_entry list \<Rightarrow> 'f ranked_entry list" where
  "unique_rank temp_rank = fold keep_highest temp_rank []"

text \<open>Line 159. \<open>list.sort\<close> computes the key of every element first, so an id that
  \<open>int\<close> rejects raises \<open>ValueError\<close> whatever the length of the list; the sort is
  stable, as \<^const>\<open>sort_key\<close> is, and Python orders the key tuples
  lexicographically.\<close>

definition sort_key_of :: "('f::linorder) floats \<Rightarrow> 'f ranked_entry \<Rightarrow> 'f neg \<times> int" where
  "sort_key_of ar = (\<lambda>(doc_id, score, chosen). (Neg (fl_round ar score), the (py_int doc_id)))"

definition rank_sort ::
  "('f::linorder) floats \<Rightarrow> 'f ranked_entry list \<Rightarrow> py_error + 'f ranked_entry list" where
  "rank_sort ar ranked =
     (if list_ex (\<lambda>(doc_id, score, chosen). py_int doc_id = None) ranked then Inl ValueError
      else Inr (sort_key (sort_key_of ar) ranked))"

text \<open>Lines 118 to 159, from the normalized query to the sorted list; line 120
  returns the empty list for an empty query.\<close>

definition rank_query ::
  "('f::linorder) floats \<Rightarrow> index \<Rightarrow> string list \<Rightarrow> py_error + 'f ranked_entry list" where
  "rank_query ar idx search_term =
     (case collect (score_doc ar search_term) (collect_match idx search_term) of
        Inl err \<Rightarrow> Inl err
      | Inr temp_rank \<Rightarrow> rank_sort ar (unique_rank temp_rank))"

section \<open>search.py: output\<close>

text \<open>
  The document store maps an id to the text of its copy under \<open>doc/\<close>, \<open>None\<close> when
  \<open>os.path.isfile\<close> is false. The text of a file is what \<open>read()\<close> returns in text
  mode, as both programs open it: decoded, and with every line ending (carriage return,
  line feed, or the two together) already turned into one line feed. So a text holds
  no carriage return, and \<open>readlines\<close> has only the line feed to split at, while
  \<open>splitlines\<close> still splits at a vertical tab, a form feed and the separators
  \<open>0x1C\<close> to \<open>0x1E\<close>. What is printed is the list of the strings written to
  standard output, in order. An exception ends the search, and what was printed before
  it is not kept.
\<close>

type_synonym doc_store = "string \<rightharpoonup> string"

definition postings :: "index \<Rightarrow> string \<Rightarrow> posting list" where
  "postings idx t = (case idx t of None \<Rightarrow> [] | Some ps \<Rightarrow> ps)"

text \<open>Lines 182 to 187.\<close>

definition matched_lines :: "index \<Rightarrow> string \<Rightarrow> chosen \<Rightarrow> int set" where
  "matched_lines idx doc_id chosen =
     fold (\<lambda>(t, pos) line_id.
        fold (\<lambda>(n, p, i) line_id. if n = doc_id \<and> p = pos then insert i line_id else line_id)
          (postings idx t) line_id)
       chosen {}"

text \<open>Lines 193 and 194: a line that does not end with a line feed gets one.\<close>

definition end_line :: "string \<Rightarrow> string" where
  "end_line line = (if line \<noteq> [] \<and> last line = newline then line else line @ [newline])"

text \<open>Lines 191 to 195, for one line number.\<close>

definition print_line :: "string list \<Rightarrow> int \<Rightarrow> string list" where
  "print_line lines i =
     (if 0 \<le> i \<and> i < int (length lines) then [end_line (lines ! nat i)] else [])"

text \<open>\<open>print_match\<close> (lines 175 to 195). A missing file returns before \<open>chosen\<close>
  is read; \<open>chosen.items()\<close> on \<open>None\<close> raises \<open>AttributeError\<close>.\<close>

definition print_match ::
  "index \<Rightarrow> doc_store \<Rightarrow> string \<Rightarrow> chosen option \<Rightarrow> py_error + string list" where
  "print_match idx docs doc_id chosen =
     (case docs doc_id of
        None \<Rightarrow> Inr []
      | Some text \<Rightarrow>
          (case chosen of
             None \<Rightarrow> Inl AttributeError
           | Some ch \<Rightarrow>
               Inr (concat (map (print_line (readlines text))
                      (sorted_list_of_set (matched_lines idx doc_id ch))))))"

text \<open>Lines 162 to 170: the output loop, with the ids printed so far.\<close>

fun print_ranked ::
  "index \<Rightarrow> doc_store \<Rightarrow> bool \<Rightarrow> string set \<Rightarrow> 'f ranked_entry list \<Rightarrow> py_error + string list" where
  "print_ranked idx docs match_line printed [] = Inr []"
| "print_ranked idx docs match_line printed ((doc_id, score, chosen) # rest) =
     (if doc_id \<in> printed then Inl AssertionError
      else
        (case (if match_line then
                 (case print_match idx docs doc_id chosen of
                    Inl err \<Rightarrow> Inl err
                  | Inr ls \<Rightarrow> Inr ((''> '' @ doc_id @ [newline]) # ls))
               else Inr [doc_id @ [newline]]) of
           Inl err \<Rightarrow> Inl err
         | Inr out \<Rightarrow>
             (case print_ranked idx docs match_line (insert doc_id printed) rest of
                Inl err \<Rightarrow> Inl err
              | Inr out' \<Rightarrow> Inr (out @ out'))))"

text \<open>Lines 116 and 117: a query that starts with \<open>>\<close> asks for the matched lines,
  and the query text is the rest, stripped.\<close>

definition preview_requested :: "string \<Rightarrow> bool" where
  "preview_requested origin_query = (case origin_query of [] \<Rightarrow> False | c # r \<Rightarrow> c = CHR ''>'')"

definition query_text :: "string \<Rightarrow> string" where
  "query_text origin_query =
     (if preview_requested origin_query then strip (tl origin_query) else strip origin_query)"

text \<open>\<open>search\<close> (lines 115 to 172): what it prints and what it returns, or the
  exception it raises.\<close>

definition search ::
  "('f::linorder) floats \<Rightarrow> env \<Rightarrow> index \<Rightarrow> doc_store \<Rightarrow> string
   \<Rightarrow> py_error + string list \<times> 'f ranked_entry list" where
  "search ar e idx docs origin_query =
     (let match_line = preview_requested origin_query;
          search_term = preprocess_sentence e (query_text origin_query)
      in if search_term = [] then Inr ([], [])
         else
           (case rank_query ar idx search_term of
              Inl err \<Rightarrow> Inl err
            | Inr ranked \<Rightarrow>
                (case print_ranked idx docs match_line {} ranked of
                   Inl err \<Rightarrow> Inl err
                 | Inr out \<Rightarrow> Inr (out, ranked))))"

section \<open>index.py: building the inverted index\<close>

record file_process =
  inverted_index :: index
  unique_words :: "string set"
  num_file :: nat

definition new_file_process :: file_process where
  "new_file_process = \<lparr>inverted_index = Map.empty, unique_words = {}, num_file = 0\<rparr>"

text \<open>Lines 82 to 84, the body of the innermost loop of \<open>file_index\<close>, on the
  pair of the object and the position counter. \<open>inverted_index\<close> is a
  \<open>defaultdict(list)\<close>.\<close>

definition add_posting :: "string \<Rightarrow> nat \<Rightarrow> string \<Rightarrow> file_process \<times> int \<Rightarrow> file_process \<times> int" where
  "add_posting doc_id n t = (\<lambda>(fp, position).
     (fp\<lparr>inverted_index :=
           (inverted_index fp)(t \<mapsto> postings (inverted_index fp) t @ [(doc_id, position, int n)]),
         unique_words := insert t (unique_words fp)\<rparr>,
      position + 1))"

text \<open>\<open>file_index\<close> (lines 75 to 84): the loops over the lines, the sentences of
  a line and the terms of a sentence. \<open>file_index_loop\<close> also gives the final value
  of the counter.\<close>

definition file_index_loop :: "env \<Rightarrow> string \<Rightarrow> string \<Rightarrow> file_process \<Rightarrow> file_process \<times> int" where
  "file_index_loop e doc_id text fp =
     fold (\<lambda>(n, line).
        fold (\<lambda>cur. fold (add_posting doc_id n) (tokenize_sentence e (index_preprocess_sentence cur)))
          (sent_tokenize e line))
       (enumerate 0 (splitlines text)) (fp, 0)"

definition file_index :: "env \<Rightarrow> string \<Rightarrow> string \<Rightarrow> file_process \<Rightarrow> file_process" where
  "file_index e doc_id text fp = fst (file_index_loop e doc_id text fp)"

text \<open>\<open>build_index\<close> (lines 92 to 106). The folder is what \<open>os.listdir\<close> gives: the
  names in any order, each with the text of the file (as \<open>read()\<close> returns it in
  text mode) or the mark that it is not a regular file. The result is the object and
  the copies under \<open>doc/\<close>; writing the index to its file and the three totals
  printed at the end (lines 106 to 113) are left out.\<close>

datatype dir_entry = File string | NotFile

definition build_step ::
  "env \<Rightarrow> (string \<times> dir_entry) list \<Rightarrow> string \<Rightarrow> file_process \<times> doc_store \<Rightarrow> file_process \<times> doc_store" where
  "build_step e folder name = (\<lambda>(fp, docs).
     case map_of folder name of
       Some (File text) \<Rightarrow>
         (let fp' = file_index e name text fp
          in (fp'\<lparr>num_file := num_file fp' + 1\<rparr>, docs(name \<mapsto> text)))
     | _ \<Rightarrow> (fp, docs))"

definition build_index :: "env \<Rightarrow> (string \<times> dir_entry) list \<Rightarrow> file_process \<times> doc_store" where
  "build_index e folder =
     fold (build_step e folder) (sort (map fst folder)) (new_file_process, Map.empty)"

section \<open>An environment to run the model\<close>

text \<open>
  A small stand-in for NLTK: sentences are whole lines, words are separated by spaces,
  the default and the noun reduction drop a final \<open>s\<close> and the verb reduction
  changes nothing.
  \<open>first_seen_order\<close> iterates a set in the order of insertion, \<open>last_seen_order\<close>
  in the opposite order. \<open>exact_floats\<close> computes with rationals, without rounding but
  in \<open>round(x, 10)\<close>. In the examples run with it two scores are either computed from
  the same operands, and then equal in any arithmetic, or at least a tenth apart, which
  the rounding of doubles cannot undo: their order is the one Python finds.
\<close>

definition toy_lemmatize :: "string \<Rightarrow> wordnet_pos option \<Rightarrow> string" where
  "toy_lemmatize word pos =
     (if pos \<noteq> Some VERB \<and> 1 < length word \<and> last word = CHR ''s'' then butlast word
      else word)"

definition toy_words :: "string \<Rightarrow> string list" where
  "toy_words s = filter (\<lambda>w. w \<noteq> []) (split_char CHR '' '' s)"

definition first_seen_order :: "string list \<Rightarrow> string list" where
  "first_seen_order xs = rev (remdups (rev xs))"


definition exact_floats :: "rat floats" where
  "exact_floats = \<lparr>fl = (\<lambda>q. q), fl_add = (+), fl_mul = (*), fl_div = (/), fl_round = round10\<rparr>"

definition toy_env :: env where
  "toy_env = \<lparr>lemmatize = toy_lemmatize, word_tokenize = toy_words,
              sent_tokenize = (\<lambda>s. [s]), set_order = first_seen_order\<rparr>"


section \<open>Notions used to state the properties\<close>

text \<open>The elements of a list at the places where they occur for the first time.\<close>

definition first_occurrences :: "'a list \<Rightarrow> 'a list" where
  "first_occurrences xs =
     map (\<lambda>i. xs ! i) (filter (\<lambda>i. xs ! i \<notin> set (take i xs)) [0..<length xs])"


text \<open>The line numbers the preview of a document collects: those of the postings of
  a chosen term that carry the document's id and the chosen position of the term.\<close>

definition matched_line_numbers :: "index \<Rightarrow> string \<Rightarrow> chosen \<Rightarrow> int set" where
  "matched_line_numbers idx doc_id ch =
     {i. \<exists>t pos. (t, pos) \<in> set ch \<and> (doc_id, pos, i) \<in> set (postings idx t)}"

text \<open>The spread of a combination of positions: the sum, over the positions in
  ascending order, of the gap between neighbours less one.\<close>

definition spread :: "int list \<Rightarrow> int" where
  "spread c = (\<Sum>i<length c - 1. sort c ! Suc i - sort c ! i - 1)"

text \<open>The ordered pairs of a choice of positions: the places of the query at which
  a term and its successor both have a chosen position, the first below the second.\<close>

definition ordered_pairs :: "string list \<Rightarrow> (string \<rightharpoonup> int) \<Rightarrow> nat" where
  "ordered_pairs Q choice =
     card {i. Suc i < length Q \<and>
              (\<exists>p1 p2. choice (Q ! i) = Some p1 \<and> choice (Q ! Suc i) = Some p2 \<and> p1 < p2)}"

text \<open>The combinations of a document: one occurrence position for each matched
  term, in the order of the matched terms.\<close>

definition combinations :: "string list \<Rightarrow> (string \<rightharpoonup> int list) \<Rightarrow> int list set" where
  "combinations Q position =
     {c. list_all2 (\<lambda>p t. p \<in> set (the (position t))) c (match_word Q position)}"

text \<open>The state of the loop of \<open>shortest_distance\<close> after it took the combination
  \<open>c\<close>, and what makes \<open>c\<close> a best combination of a set: no other has a smaller sum
  of gaps, and none with the same sum has more ordered pairs.\<close>

definition best_of :: "string list \<Rightarrow> string list \<Rightarrow> int list \<Rightarrow> int ext \<times> int \<times> chosen option" where
  "best_of Q mw c =
     (Num (sum_int c), pairs_num Q (py_dict (zip mw c)), Some (py_dict (zip mw c)))"

definition opt_among :: "string list \<Rightarrow> string list \<Rightarrow> int list set \<Rightarrow> int list \<Rightarrow> bool" where
  "opt_among Q mw S c \<longleftrightarrow> c \<in> S \<and>
     (\<forall>c' \<in> S. sum_int c \<le> sum_int c' \<and>
        (sum_int c' = sum_int c \<longrightarrow>
           pairs_num Q (py_dict (zip mw c')) \<le> pairs_num Q (py_dict (zip mw c))))"

text \<open>The terms a document emits, each with the number of its line, in the order in
  which the three nested loops of \<open>file_index\<close> (lines 78 to 81) reach them.\<close>

definition doc_terms :: "env \<Rightarrow> string \<Rightarrow> (string \<times> nat) list" where
  "doc_terms e text =
     concat (map (\<lambda>(n, line).
        concat (map (\<lambda>cur. map (\<lambda>t. (t, n)) (tokenize_sentence e (index_preprocess_sentence cur)))
          (sent_tokenize e line)))
       (enumerate 0 (splitlines text)))"

text \<open>The postings a document gives to a term: the \<open>k\<close>-th emitted term of the
  document, counted from 0, gives the posting with position \<open>k\<close> to its own list.\<close>

definition new_postings :: "env \<Rightarrow> string \<Rightarrow> string \<Rightarrow> string \<Rightarrow> posting list" where
  "new_postings e doc_id text t =
     map (\<lambda>(k, (t', n)). (doc_id, int k, int n))
       (filter (\<lambda>(k, (t', n)). t' = t) (enumerate 0 (doc_terms e text)))"

text \<open>The postings an entry of the folder gives to a term: none when it is no
  regular file.\<close>

definition entry_postings :: "env \<Rightarrow> (string \<times> dir_entry) list \<Rightarrow> string \<Rightarrow> string \<Rightarrow> posting list" where
  "entry_postings e folder t name =
     (case map_of folder name of
        Some (File text) \<Rightarrow> new_postings e name text t
      | _ \<Rightarrow> [])"

text \<open>The order of a postings list: the ids rise, as file names, and two postings
  of one document stand in the order of their positions.\<close>

definition posting_order :: "posting \<Rightarrow> posting \<Rightarrow> bool" where
  "posting_order p q \<longleftrightarrow> fst p \<le> fst q \<and> (fst p = fst q \<longrightarrow> fst (snd p) < fst (snd q))"


section \<open>The normalized query\<close>

lemma dict_fromkeys_snoc:
  "dict_fromkeys (ks @ [k]) = AList.update k () (dict_fromkeys ks)"
  by (simp add: dict_fromkeys_def)

lemma set_dict_fromkeys: "set (map fst (dict_fromkeys ks)) = set ks"
proof (induction ks rule: rev_induct)
  case Nil
  then show ?case by (simp add: dict_fromkeys_def)
next
  case (snoc k ks)
  then show ?case
    unfolding dict_fromkeys_snoc by (simp add: update_keys del: set_map) auto
qed

lemma distinct_dict_fromkeys: "distinct (map fst (dict_fromkeys ks))"
proof (induction ks rule: rev_induct)
  case Nil
  then show ?case by (simp add: dict_fromkeys_def)
next
  case (snoc k ks)
  then show ?case
    unfolding dict_fromkeys_snoc by (rule distinct_update)
qed

lemma first_occurrences_snoc:
  "first_occurrences (xs @ [x]) = first_occurrences xs @ (if x \<in> set xs then [] else [x])"
proof -
  let ?P = "\<lambda>i. (xs @ [x]) ! i \<notin> set (take i (xs @ [x]))"
  have a: "filter ?P [0..<length xs] = filter (\<lambda>i. xs ! i \<notin> set (take i xs)) [0..<length xs]"
    by (rule filter_cong) (auto simp: nth_append)
  have b: "map (\<lambda>i. (xs @ [x]) ! i) (filter (\<lambda>i. xs ! i \<notin> set (take i xs)) [0..<length xs])
        = map (\<lambda>i. xs ! i) (filter (\<lambda>i. xs ! i \<notin> set (take i xs)) [0..<length xs])"
    by (rule map_cong) (auto simp: nth_append)
  have "first_occurrences (xs @ [x])
      = map (\<lambda>i. (xs @ [x]) ! i) (filter ?P ([0..<length xs] @ [length xs]))"
    by (simp add: first_occurrences_def)
  also have "\<dots> = map (\<lambda>i. (xs @ [x]) ! i) (filter ?P [0..<length xs])
                 @ (if x \<in> set xs then [] else [x])"
    by simp
  also have "\<dots> = first_occurrences xs @ (if x \<in> set xs then [] else [x])"
    unfolding a b by (simp add: first_occurrences_def)
  finally show ?thesis .
qed

lemma keys_dict_fromkeys: "map fst (dict_fromkeys ks) = first_occurrences ks"
proof (induction ks rule: rev_induct)
  case Nil
  then show ?case by (simp add: dict_fromkeys_def first_occurrences_def)
next
  case (snoc k ks)
  have mem: "k \<in> set (map fst (dict_fromkeys ks)) \<longleftrightarrow> k \<in> set ks"
    by (simp only: set_dict_fromkeys)
  have "map fst (dict_fromkeys (ks @ [k]))
      = (if k \<in> set (map fst (dict_fromkeys ks)) then map fst (dict_fromkeys ks)
         else map fst (dict_fromkeys ks) @ [k])"
    unfolding dict_fromkeys_snoc by (rule update_keys)
  also have "\<dots> = first_occurrences ks @ (if k \<in> set ks then [] else [k])"
    by (simp only: mem) (simp add: snoc.IH)
  finally show ?case by (simp only: first_occurrences_snoc)
qed

lemma preprocess_sentence_terms:
  "preprocess_sentence e s
     = map fst (dict_fromkeys (tokenize_sentence e (index_preprocess_sentence s)))"
  by (simp add: preprocess_sentence_def tokenize_sentence_def index_preprocess_sentence_def)

text \<open>
  C9. The terms of a query are emitted by the same pipeline as the terms of a sentence
  of a document (possessives and thousands separators removed, the tokens normalized
  one after the other). The normalized query holds each emitted term once and no other
  term, and it is the sequence of the emitted terms at the places where each occurs
  for the first time.
\<close>

theorem preprocess_sentence_first_occurrences:
  "distinct (preprocess_sentence e s)
   \<and> set (preprocess_sentence e s) = set (tokenize_sentence e (index_preprocess_sentence s))
   \<and> preprocess_sentence e s
       = first_occurrences (tokenize_sentence e (index_preprocess_sentence s))"
  unfolding preprocess_sentence_terms
  by (intro conjI distinct_dict_fromkeys set_dict_fromkeys keys_dict_fromkeys)

theorem preprocess_sentence_first_occurrences_witness:
  "tokenize_sentence toy_env (index_preprocess_sentence ''cats dog cat dogs'')
     = [''cat'', ''cats'', ''dog'', ''cat'', ''dog'', ''dogs'']
   \<and> preprocess_sentence toy_env ''cats dog cat dogs'' = [''cat'', ''cats'', ''dog'', ''dogs'']"
proof -
  have t: "tokenize_sentence toy_env (index_preprocess_sentence ''cats dog cat dogs'')
             = [''cat'', ''cats'', ''dog'', ''cat'', ''dog'', ''dogs'']"
    by code_simp
  have "first_occurrences [''cat'', ''cats'', ''dog'', ''cat'', ''dog'', ''dogs'']
          = [''cat'', ''cats'', ''dog'', ''dogs'']"
    by code_simp
  with t show ?thesis
    using preprocess_sentence_first_occurrences [of toy_env "''cats dog cat dogs''"]
    by simp
qed

section \<open>The empty query\<close>

text \<open>
  C8. When the normalized term list of a query line is empty, \<open>search\<close> returns the
  empty list, prints nothing and raises no exception.
\<close>

theorem search_empty_query:
  "preprocess_sentence e (query_text origin_query) = []
   \<Longrightarrow> search ar e idx docs origin_query = Inr ([], [])"
  by (simp add: search_def)

theorem search_empty_query_witness:
  "preprocess_sentence toy_env (query_text ''> ?!'') = []
   \<and> search exact_floats toy_env [''cat'' \<mapsto> [(''1'', 0, 0)]] Map.empty ''> ?!'' = Inr ([], [])"
proof -
  have h: "preprocess_sentence toy_env (query_text ''> ?!'') = []"
    by code_simp
  show ?thesis
    using h search_empty_query [OF h, of exact_floats] by simp
qed

section \<open>The ranked list\<close>

lemma keep_highest_distinct:
  "distinct (map fst u) \<Longrightarrow> distinct (map fst (keep_highest x u))"
  by (cases x) (auto simp: keep_highest_def distinct_update split: option.splits)

lemma fold_keep_highest_distinct:
  "distinct (map fst u) \<Longrightarrow> distinct (map fst (fold keep_highest xs u))"
  by (induction xs arbitrary: u) (simp_all add: keep_highest_distinct)

lemma unique_rank_distinct: "distinct (map fst (unique_rank temp_rank))"
  unfolding unique_rank_def by (rule fold_keep_highest_distinct) simp

lemma distinct_map_sort_key:
  "distinct (map g (sort_key f xs)) = distinct (map g xs)"
proof -
  have "mset (map g (sort_key f xs)) = mset (map g xs)"
    by simp
  then show ?thesis
    by (rule mset_eq_imp_distinct_iff)
qed

lemma rank_sort_Inr:
  assumes "rank_sort ar r = Inr ranked"
  shows "ranked = sort_key (sort_key_of ar) r" and "\<forall>x \<in> set r. py_int (fst x) \<noteq> None"
  using assms by (auto simp: rank_sort_def list_ex_iff split: if_splits)

lemma rank_sort_not_assert: "rank_sort ar r \<noteq> Inl AssertionError"
  by (simp add: rank_sort_def)

lemma rank_query_distinct:
  assumes "rank_query ar idx st = Inr ranked"
  shows "distinct (map fst ranked)"
proof -
  from assms obtain temp_rank where r: "rank_sort ar (unique_rank temp_rank) = Inr ranked"
    by (auto simp: rank_query_def split: sum.splits)
  then have "ranked = sort_key (sort_key_of ar) (unique_rank temp_rank)"
    by (rule rank_sort_Inr(1))
  then show ?thesis
    by (simp only: distinct_map_sort_key unique_rank_distinct)
qed

lemma print_ranked_no_assert:
  "distinct (map fst ranked) \<Longrightarrow> fst ` set ranked \<inter> printed = {}
   \<Longrightarrow> print_ranked idx docs ml printed ranked \<noteq> Inl AssertionError"
proof (induction ranked arbitrary: printed)
  case Nil
  then show ?case by simp
next
  case (Cons x ranked)
  obtain d s c where x: "x = (d, s, c)" by (cases x) auto
  from Cons.prems have d: "d \<notin> printed" "distinct (map fst ranked)"
    "fst ` set ranked \<inter> insert d printed = {}"
    by (auto simp: x)
  from Cons.IH [OF d(2,3)]
  have ih: "print_ranked idx docs ml (insert d printed) ranked \<noteq> Inl AssertionError" .
  have pm: "print_match idx docs d c \<noteq> Inl AssertionError"
    by (simp add: print_match_def split: option.splits)
  show ?case
    using d(1) ih pm by (auto simp: x split: sum.splits)
qed

lemma collect_not_assert:
  "(\<And>x. f x \<noteq> Inl AssertionError) \<Longrightarrow> collect f xs \<noteq> Inl AssertionError"
  by (induction xs) (auto split: sum.splits)

lemma score_doc_not_assert: "score_doc ar st x \<noteq> Inl AssertionError"
  by (cases x) (auto simp: score_doc_def Let_def split: option.splits list.splits prod.splits ext.splits)

lemma rank_query_not_assert: "rank_query ar idx st \<noteq> Inl AssertionError"
  using collect_not_assert [of "score_doc ar st" "collect_match idx st"] score_doc_not_assert
  by (auto simp: rank_query_def rank_sort_not_assert split: sum.splits)



lemma search_Inr:
  assumes "search ar e idx docs q = Inr (out, ranked)"
    and "preprocess_sentence e (query_text q) \<noteq> []"
  shows "rank_query ar idx (preprocess_sentence e (query_text q)) = Inr ranked"
    and "print_ranked idx docs (preview_requested q) {} ranked = Inr out"
  using assms by (auto simp: search_def Let_def split: sum.splits)

text \<open>
  C5. \<open>search\<close> never raises the \<open>AssertionError\<close> of the output loop (line 164), and
  the list it returns holds each document id at most once: \<open>match\<close> is keyed by id, the
  pass that keeps the highest score is keyed by id, and sorting only reorders.
\<close>

theorem search_no_duplicate_ids:
  "search ar e idx docs q \<noteq> Inl AssertionError
   \<and> (\<forall>out ranked. search ar e idx docs q = Inr (out, ranked) \<longrightarrow> distinct (map fst ranked))"
proof (cases "preprocess_sentence e (query_text q) = []")
  case True
  then show ?thesis by (simp add: search_def)
next
  case False
  let ?st = "preprocess_sentence e (query_text q)"
  show ?thesis
  proof (cases "rank_query ar idx ?st")
    case (Inl err)
    then have "search ar e idx docs q = Inl err" using False by (simp add: search_def)
    moreover have "err \<noteq> AssertionError" using Inl rank_query_not_assert by metis
    ultimately show ?thesis by simp
  next
    case (Inr ranked)
    then have dist: "distinct (map fst ranked)" by (rule rank_query_distinct)
    then have "print_ranked idx docs (preview_requested q) {} ranked \<noteq> Inl AssertionError"
      by (rule print_ranked_no_assert) simp
    then show ?thesis
      using False Inr dist by (auto simp: search_def split: sum.splits)
  qed
qed

theorem search_no_duplicate_ids_witness:
  "search exact_floats toy_env [''cat'' \<mapsto> [(''2'', 0, 0), (''1'', 3, 0), (''2'', 5, 1)],
                   ''dog'' \<mapsto> [(''1'', 0, 0), (''2'', 1, 0)]] Map.empty ''dog cats''
     = Inr ([''2'' @ [newline], ''1'' @ [newline]],
            [(''2'', 5 / 3, Some [(''dog'', 1), (''cat'', 0)]),
             (''1'', 11 / 10, Some [(''dog'', 0), (''cat'', 3)])])
   \<and> distinct (map fst
         [(''2'', 5 / 3 :: rat, Some [(''dog'', 1 :: int), (''cat'', 0)]),
          (''1'', 11 / 10, Some [(''dog'', 0), (''cat'', 3)])])"
proof -
  have ev: "search exact_floats toy_env [''cat'' \<mapsto> [(''2'', 0, 0), (''1'', 3, 0), (''2'', 5, 1)],
                   ''dog'' \<mapsto> [(''1'', 0, 0), (''2'', 1, 0)]] Map.empty ''dog cats''
     = Inr ([''2'' @ [newline], ''1'' @ [newline]],
            [(''2'', 5 / 3, Some [(''dog'', 1), (''cat'', 0)]),
             (''1'', 11 / 10, Some [(''dog'', 0), (''cat'', 3)])])"
    by code_simp
  from search_no_duplicate_ids
    [of exact_floats toy_env "[''cat'' \<mapsto> [(''2'', 0, 0), (''1'', 3, 0), (''2'', 5, 1)],
                  ''dog'' \<mapsto> [(''1'', 0, 0), (''2'', 1, 0)]]" Map.empty "''dog cats''"]
  show ?thesis unfolding ev by blast
qed
















section \<open>The preview\<close>

lemma fold_line_id:
  "fold (\<lambda>(n, p, i) line_id. if n = d \<and> p = pos then insert i line_id else line_id) ps acc
     = acc \<union> {i. (d, pos, i) \<in> set ps}"
proof (induction ps arbitrary: acc)
  case Nil
  then show ?case by simp
next
  case (Cons x ps)
  obtain n p i where x: "x = (n, p, i)" by (cases x) auto
  show ?case
    by (cases "n = d \<and> p = pos") (auto simp: x Cons.IH)
qed

lemma fold_matched_lines:
  "fold (\<lambda>(t, pos) line_id. line_id \<union> {i. (d, pos, i) \<in> set (postings idx t)}) ch acc
     = acc \<union> matched_line_numbers idx d ch"
proof (induction ch arbitrary: acc)
  case Nil
  then show ?case by (simp add: matched_line_numbers_def)
next
  case (Cons x ch)
  obtain t pos where x: "x = (t, pos)" by (cases x) auto
  have "matched_line_numbers idx d (x # ch)
          = {i. (d, pos, i) \<in> set (postings idx t)} \<union> matched_line_numbers idx d ch"
    by (auto simp: matched_line_numbers_def x)
  then show ?case
    by (simp add: x Cons.IH Un_assoc)
qed

lemma fold_line_id_fun:
  "fold (\<lambda>(n, p, i) line_id. if n = d \<and> p = pos then insert i line_id else line_id) ps
     = (\<lambda>acc. acc \<union> {i. (d, pos, i) \<in> set ps})"
  by (rule ext) (rule fold_line_id)

lemma matched_lines_eq: "matched_lines idx d ch = matched_line_numbers idx d ch"
  unfolding matched_lines_def fold_line_id_fun by (simp add: fold_matched_lines)

lemma finite_matched_line_numbers: "finite (matched_line_numbers idx d ch)"
proof -
  have "matched_line_numbers idx d ch
          \<subseteq> (\<Union>(t, pos) \<in> set ch. (\<lambda>(n, p, i). i) ` set (postings idx t))"
    by (force simp: matched_line_numbers_def)
  moreover have "finite (\<Union>(t, pos) \<in> set ch. (\<lambda>(n, p, i). i) ` set (postings idx t))"
    by auto
  ultimately show ?thesis by (rule finite_subset)
qed

lemma concat_print_line:
  "concat (map (print_line lines) ls)
     = map (\<lambda>i. end_line (lines ! nat i)) (filter (\<lambda>i. 0 \<le> i \<and> i < int (length lines)) ls)"
  by (induction ls) (simp_all add: print_line_def)

lemma end_line_ends: "end_line l \<noteq> [] \<and> last (end_line l) = newline"
  by (simp add: end_line_def)

lemma print_match_missing: "docs d = None \<Longrightarrow> print_match idx docs d chosen = Inr []"
  by (simp add: print_match_def)

lemma print_match_lines:
  assumes "docs d = Some body"
  shows "\<exists>ls. sorted ls \<and> distinct ls
           \<and> set ls = {i \<in> matched_line_numbers idx d ch. 0 \<le> i \<and> i < int (length (readlines body))}
           \<and> print_match idx docs d (Some ch) = Inr (map (\<lambda>i. end_line (readlines body ! nat i)) ls)"
proof -
  let ?all = "sorted_list_of_set (matched_line_numbers idx d ch)"
  let ?ls = "filter (\<lambda>i. 0 \<le> i \<and> i < int (length (readlines body))) ?all"
  have "sorted ?ls" by (rule sorted_wrt_filter) simp
  moreover have "distinct ?ls" by simp
  moreover have "set ?ls = {i \<in> matched_line_numbers idx d ch. 0 \<le> i \<and> i < int (length (readlines body))}"
    using finite_matched_line_numbers [of idx d ch] by auto
  moreover have "print_match idx docs d (Some ch) = Inr (map (\<lambda>i. end_line (readlines body ! nat i)) ?ls)"
    using assms by (simp add: print_match_def matched_lines_eq concat_print_line)
  ultimately show ?thesis by blast
qed

lemma print_match_removed:
  assumes "docs' d = None \<or> docs' d = docs d" "print_match idx docs d c = Inr ls"
  shows "\<exists>ls'. print_match idx docs' d c = Inr ls'"
  using assms by (auto simp: print_match_def split: option.splits)

lemma print_ranked_removed:
  assumes "\<forall>d. docs' d = None \<or> docs' d = docs d"
    and "print_ranked idx docs ml printed ranked = Inr out"
  shows "\<exists>out'. print_ranked idx docs' ml printed ranked = Inr out'"
  using assms(2)
proof (induction ranked arbitrary: printed out)
  case Nil
  then show ?case by simp
next
  case (Cons x ranked)
  obtain d s c where x: "x = (d, s, c)" by (cases x) auto
  from Cons.prems have np: "d \<notin> printed" by (auto simp: x split: if_splits)
  from Cons.prems np obtain o2 where rest: "print_ranked idx docs ml (insert d printed) ranked = Inr o2"
    by (auto simp: x split: sum.splits if_splits)
  from Cons.IH [OF rest] obtain o2' where
    rest': "print_ranked idx docs' ml (insert d printed) ranked = Inr o2'" by blast
  show ?case
  proof (cases ml)
    case True
    with Cons.prems np obtain ls where "print_match idx docs d c = Inr ls"
      by (auto simp: x split: sum.splits)
    with assms(1) obtain ls' where "print_match idx docs' d c = Inr ls'"
      using print_match_removed by blast
    with True np rest' show ?thesis by (simp add: x)
  next
    case False
    with np rest' show ?thesis by (simp add: x)
  qed
qed

text \<open>
  C7, as amended. For a document whose file is missing \<open>print_match\<close> prints nothing
  and raises nothing. For a document with a file it prints the lines of the file, as
  \<open>readlines\<close> gives them, at those matched line numbers that are line numbers of the
  file (lines 190 and 191), in ascending order and each once, and every printed line
  ends with a line feed, added when the line of the file has none. Removing files from
  the document store never turns a search that returned into one that raises, and
  leaves the returned ranked list as it was.
\<close>

theorem print_match_preview:
  "(docs d = None \<longrightarrow> print_match idx docs d chosen = Inr [])
   \<and> (docs d = Some body \<longrightarrow>
        (\<exists>ls. sorted ls \<and> distinct ls
           \<and> set ls = {i \<in> matched_line_numbers idx d ch.
                         0 \<le> i \<and> i < int (length (readlines body))}
           \<and> print_match idx docs d (Some ch)
                = Inr (map (\<lambda>i. end_line (readlines body ! nat i)) ls)
           \<and> (\<forall>i \<in> set ls. end_line (readlines body ! nat i) \<noteq> []
                  \<and> last (end_line (readlines body ! nat i)) = newline)))
   \<and> ((\<forall>x. docs' x = None \<or> docs' x = docs x) \<and> search ar e idx docs q = Inr (out, ranked)
        \<longrightarrow> (\<exists>out'. search ar e idx docs' q = Inr (out', ranked)))"
proof (intro conjI impI)
  assume "docs d = None"
  then show "print_match idx docs d chosen = Inr []" by (rule print_match_missing)
next
  assume "docs d = Some body"
  with print_match_lines [where docs = docs and d = d and body = body and idx = idx and ch = ch]
  show "\<exists>ls. sorted ls \<and> distinct ls
           \<and> set ls = {i \<in> matched_line_numbers idx d ch.
                         0 \<le> i \<and> i < int (length (readlines body))}
           \<and> print_match idx docs d (Some ch)
                = Inr (map (\<lambda>i. end_line (readlines body ! nat i)) ls)
           \<and> (\<forall>i \<in> set ls. end_line (readlines body ! nat i) \<noteq> []
                  \<and> last (end_line (readlines body ! nat i)) = newline)"
    using end_line_ends by blast
next
  assume a: "(\<forall>x. docs' x = None \<or> docs' x = docs x) \<and> search ar e idx docs q = Inr (out, ranked)"
  show "\<exists>out'. search ar e idx docs' q = Inr (out', ranked)"
  proof (cases "preprocess_sentence e (query_text q) = []")
    case True
    with a show ?thesis by (simp add: search_def)
  next
    case False
    from a False have r: "rank_query ar idx (preprocess_sentence e (query_text q)) = Inr ranked"
      and p: "print_ranked idx docs (preview_requested q) {} ranked = Inr out"
      using search_Inr by blast+
    from a p obtain out' where "print_ranked idx docs' (preview_requested q) {} ranked = Inr out'"
      using print_ranked_removed by blast
    with r False show ?thesis by (simp add: search_def Let_def)
  qed
qed

theorem print_match_preview_witness:
  "print_match [''dog'' \<mapsto> [(''1'', 3, 1), (''2'', 0, 0)]]
       [''1'' \<mapsto> ''the cat'' @ [newline] @ ''a dog'', ''2'' \<mapsto> ''dog''] ''3'' None = Inr []
   \<and> print_match [''dog'' \<mapsto> [(''1'', 3, 1), (''2'', 0, 0)]]
       [''1'' \<mapsto> ''the cat'' @ [newline] @ ''a dog'', ''2'' \<mapsto> ''dog''] ''1'' (Some [(''dog'', 3)])
       = Inr [''a dog'' @ [newline]]
   \<and> search exact_floats toy_env [''dog'' \<mapsto> [(''1'', 3, 1), (''2'', 0, 0)]]
       [''1'' \<mapsto> ''the cat'' @ [newline] @ ''a dog'', ''2'' \<mapsto> ''dog''] ''> dog''
       = Inr ([''> 1'' @ [newline], ''a dog'' @ [newline], ''> 2'' @ [newline], ''dog'' @ [newline]],
              [(''1'', 1, Some [(''dog'', 3)]), (''2'', 1, Some [(''dog'', 0)])])
   \<and> (\<exists>out'. search exact_floats toy_env [''dog'' \<mapsto> [(''1'', 3, 1), (''2'', 0, 0)]] Map.empty ''> dog''
          = Inr (out', [(''1'', 1, Some [(''dog'', 3)]), (''2'', 1, Some [(''dog'', 0)])]))"
proof -
  let ?idx = "[''dog'' \<mapsto> [(''1'', 3, 1), (''2'', 0, 0)]] :: index"
  let ?docs = "[''1'' \<mapsto> ''the cat'' @ [newline] @ ''a dog'', ''2'' \<mapsto> ''dog''] :: doc_store"
  have missing: "?docs ''3'' = None"
    by simp
  have removed: "\<forall>x. (Map.empty :: doc_store) x = None \<or> (Map.empty :: doc_store) x = ?docs x"
    by simp
  have shown: "print_match ?idx ?docs ''1'' (Some [(''dog'', 3)]) = Inr [''a dog'' @ [newline]]"
    by code_simp
  have ev: "search exact_floats toy_env ?idx ?docs ''> dog''
       = Inr ([''> 1'' @ [newline], ''a dog'' @ [newline], ''> 2'' @ [newline], ''dog'' @ [newline]],
              [(''1'', 1, Some [(''dog'', 3)]), (''2'', 1, Some [(''dog'', 0)])])"
    by code_simp
  from print_match_preview
    [where docs = ?docs and d = "''3''" and idx = ?idx and chosen = None
       and docs' = Map.empty and ar = exact_floats and e = toy_env and q = "''> dog''"
       and out = "[''> 1'' @ [newline], ''a dog'' @ [newline], ''> 2'' @ [newline], ''dog'' @ [newline]]"
       and ranked = "[(''1'', 1, Some [(''dog'', 3)]), (''2'', 1, Some [(''dog'', 0)])]"]
    missing removed shown ev
  show ?thesis by blast
qed

text \<open>
  C7 as stated fails: a matched line number that is no line number of the file is
  passed over. So it is for a loaded index whose posting names line 5 of a file of one
  line; and so it is for the index and the copy that \<open>build_index\<close> makes of a document
  with a form feed, which \<open>splitlines\<close> takes for the end of a line and
  \<open>readlines\<close> does not: \<open>dog\<close> is matched on line 1, the file has the one line 0, and
  the preview of the document is empty.
\<close>

theorem print_match_preview_counterexample:
  "matched_lines [''dog'' \<mapsto> [(''1'', 3, 5)]] ''1'' [(''dog'', 3)] = {5}
   \<and> print_match [''dog'' \<mapsto> [(''1'', 3, 5)]] [''1'' \<mapsto> ''dog''] ''1'' (Some [(''dog'', 3)])
       = Inr []
   \<and> inverted_index (fst (build_index toy_env [(''1'', File (''x'' @ [CHR 0x0C] @ ''dog''))])) ''dog''
       = Some [(''1'', 1, 1)]
   \<and> snd (build_index toy_env [(''1'', File (''x'' @ [CHR 0x0C] @ ''dog''))]) ''1''
       = Some (''x'' @ [CHR 0x0C] @ ''dog'')
   \<and> readlines (''x'' @ [CHR 0x0C] @ ''dog'') = [''x'' @ [CHR 0x0C] @ ''dog'']
   \<and> matched_lines
         (inverted_index (fst (build_index toy_env [(''1'', File (''x'' @ [CHR 0x0C] @ ''dog''))])))
         ''1'' [(''dog'', 1)] = {1}
   \<and> search exact_floats toy_env
         (inverted_index (fst (build_index toy_env [(''1'', File (''x'' @ [CHR 0x0C] @ ''dog''))])))
         (snd (build_index toy_env [(''1'', File (''x'' @ [CHR 0x0C] @ ''dog''))])) ''> dog''
       = Inr ([''> 1'' @ [newline]], [(''1'', 1, Some [(''dog'', 1)])])"
proof -
  have a: "matched_lines [''dog'' \<mapsto> [(''1'', 3, 5)]] ''1'' [(''dog'', 3)] = {5}"
    by code_simp
  have b: "print_match [''dog'' \<mapsto> [(''1'', 3, 5)]] [''1'' \<mapsto> ''dog''] ''1'' (Some [(''dog'', 3)])
       = Inr []"
    by code_simp
  have c: "inverted_index (fst (build_index toy_env [(''1'', File (''x'' @ [CHR 0x0C] @ ''dog''))])) ''dog''
       = Some [(''1'', 1, 1)]"
    by code_simp
  have d: "snd (build_index toy_env [(''1'', File (''x'' @ [CHR 0x0C] @ ''dog''))]) ''1''
       = Some (''x'' @ [CHR 0x0C] @ ''dog'')"
    by code_simp
  have e: "readlines (''x'' @ [CHR 0x0C] @ ''dog'') = [''x'' @ [CHR 0x0C] @ ''dog'']"
    by code_simp
  have f: "matched_lines
         (inverted_index (fst (build_index toy_env [(''1'', File (''x'' @ [CHR 0x0C] @ ''dog''))])))
         ''1'' [(''dog'', 1)] = {1}"
    by code_simp
  have g: "search exact_floats toy_env
         (inverted_index (fst (build_index toy_env [(''1'', File (''x'' @ [CHR 0x0C] @ ''dog''))])))
         (snd (build_index toy_env [(''1'', File (''x'' @ [CHR 0x0C] @ ''dog''))])) ''> dog''
       = Inr ([''> 1'' @ [newline]], [(''1'', 1, Some [(''dog'', 1)])])"
    by code_simp
  from a b c d e f g show ?thesis by blast
qed

section \<open>The shortest-window search\<close>

lemma fold_pairs_ge: "n \<le> fold (\<lambda>i n.
        case (map_of d (Q ! i), map_of d (Q ! (i + 1))) of
          (Some p1, Some p2) \<Rightarrow> if p1 < p2 then n + 1 else n
        | _ \<Rightarrow> n) is (n::int)"
proof (induction "is" arbitrary: n)
  case Nil
  then show ?case by simp
next
  case (Cons i "is")
  have "n \<le> (case (map_of d (Q ! i), map_of d (Q ! (i + 1))) of
          (Some p1, Some p2) \<Rightarrow> if p1 < p2 then n + 1 else n
        | _ \<Rightarrow> n)"
    by (simp split: option.splits)
  then show ?case
    using Cons.IH order_trans by fastforce
qed

lemma pairs_num_nonneg: "0 \<le> pairs_num Q d"
  unfolding pairs_num_def by (rule fold_pairs_ge)

lemma update_best_init:
  "update_best Q mw c (PInf, - 1, None) = best_of Q mw c"
  by (simp add: update_best_def best_of_def Let_def)

lemma update_best_step:
  assumes "opt_among Q mw S c0"
  shows "\<exists>c1. opt_among Q mw (insert c S) c1 \<and> update_best Q mw c (best_of Q mw c0) = best_of Q mw c1"
proof (cases "sum_int c < sum_int c0 \<or> (sum_int c = sum_int c0 \<and> pairs_num Q (py_dict (zip mw c)) > pairs_num Q (py_dict (zip mw c0)))")
  case True
  then have "update_best Q mw c (best_of Q mw c0) = best_of Q mw c"
    by (auto simp add: update_best_def best_of_def Let_def)
  moreover have "opt_among Q mw (insert c S) c"
    using assms True unfolding opt_among_def by force
  ultimately show ?thesis by blast
next
  case False
  then have "update_best Q mw c (best_of Q mw c0) = best_of Q mw c0"
    by (auto simp add: update_best_def best_of_def Let_def)
  moreover have "opt_among Q mw (insert c S) c0"
    using assms False unfolding opt_among_def by force
  ultimately show ?thesis by blast
qed

lemma fold_update_best_opt:
  assumes "opt_among Q mw S c0"
  shows "\<exists>c1. opt_among Q mw (S \<union> set cs) c1 \<and>
           fold (update_best Q mw) cs (best_of Q mw c0) = best_of Q mw c1"
  using assms
proof (induction cs arbitrary: S c0)
  case Nil
  then show ?case by auto
next
  case (Cons c cs)
  from update_best_step[OF Cons.prems, of c] obtain c1 where
    c1: "opt_among Q mw (insert c S) c1" "update_best Q mw c (best_of Q mw c0) = best_of Q mw c1"
    by blast
  from Cons.IH[OF c1(1)] obtain c2 where
    "opt_among Q mw (insert c S \<union> set cs) c2"
    "fold (update_best Q mw) cs (best_of Q mw c1) = best_of Q mw c2" by blast
  then show ?case using c1(2) by auto
qed

lemma fold_update_best:
  assumes "cs \<noteq> []"
  shows "\<exists>c. opt_among Q mw (set cs) c \<and>
           fold (update_best Q mw) cs (PInf, - 1, None) = best_of Q mw c"
proof -
  obtain c cs' where cs: "cs = c # cs'" using assms by (cases cs) auto
  have "opt_among Q mw {c} c" by (simp add: opt_among_def)
  from fold_update_best_opt[OF this, of cs'] show ?thesis
    by (simp add: cs update_best_init)
qed

lemma sum_int_spread: "sum_int c = spread c"
  by (simp add: sum_int_def spread_def Let_def interv_sum_list_conv_sum_set_nat lessThan_atLeast0)

lemma fold_count:
  "fold (\<lambda>i n. if P i then n + 1 else n) is (n0::int) = n0 + int (length (filter P is))"
  by (induction "is" arbitrary: n0) auto

lemma pairs_case_if:
  "(case (a, b) of (Some p1, Some p2) \<Rightarrow> if p1 < p2 then n + 1 else n | _ \<Rightarrow> n)
     = (if (\<exists>p1 p2. a = Some p1 \<and> b = Some p2 \<and> p1 < (p2::int)) then n + 1 else (n::int))"
  by (simp split: option.splits)

lemma pairs_num_ordered_pairs:
  "pairs_num Q d = int (ordered_pairs Q (map_of d))"
proof -
  let ?P = "\<lambda>i. \<exists>p1 p2. map_of d (Q ! i) = Some p1 \<and> map_of d (Q ! (i + 1)) = Some p2 \<and> p1 < p2"
  have "pairs_num Q d = int (length (filter ?P [0..<length Q - 1]))"
    unfolding pairs_num_def pairs_case_if by (simp add: fold_count)
  also have "length (filter ?P [0..<length Q - 1]) = card ({i. ?P i} \<inter> set [0..<length Q - 1])"
    by (rule distinct_length_filter) simp
  also have "{i. ?P i} \<inter> set [0..<length Q - 1] = {i. Suc i < length Q \<and> ?P i}"
    by auto
  finally show ?thesis by (simp add: ordered_pairs_def)
qed

lemma product_lists_single:
  "\<forall>xs \<in> set xss. length xs = 1 \<Longrightarrow> product_lists xss = [map hd xss]"
proof (induction xss)
  case Nil
  then show ?case by simp
next
  case (Cons xs xss)
  then obtain x where "xs = [x]" by (cases xs) auto
  with Cons show ?case by simp
qed

lemma product_lists_nonempty:
  "\<forall>xs \<in> set xss. xs \<noteq> [] \<Longrightarrow> product_lists xss \<noteq> []"
proof (induction xss)
  case Nil
  then show ?case by simp
next
  case (Cons xs xss)
  then obtain x xs' where "xs = x # xs'" by (cases xs) auto
  with Cons show ?case by simp
qed

lemma product_lists_match_list:
  "set (product_lists (match_list Q position)) = combinations Q position"
  by (simp add: product_lists_set match_list_def combinations_def list_all2_map2)

lemma map_of_fold_update:
  "map_of (fold (\<lambda>(k, v). AList.update k v) kvs acc) = map_of acc ++ map_of (rev kvs)"
proof (induction kvs arbitrary: acc)
  case Nil
  then show ?case by simp
next
  case (Cons kv kvs)
  obtain k v where kv: "kv = (k, v)" by (cases kv) auto
  show ?case
    by (rule ext) (simp add: kv Cons.IH update_conv' map_add_def split: option.splits)
qed

lemma map_of_py_dict: "map_of (py_dict kvs) = map_of (rev kvs)"
  by (simp add: py_dict_def map_of_fold_update)

lemma update_fresh:
  "k \<notin> fst ` set al \<Longrightarrow> AList.update k v al = al @ [(k, v)]"
  by (induction al) auto

lemma fold_update_distinct:
  "distinct (map fst (acc @ kvs))
   \<Longrightarrow> fold (\<lambda>(k, v). AList.update k v) kvs acc = acc @ kvs"
proof (induction kvs arbitrary: acc)
  case Nil
  then show ?case by simp
next
  case (Cons kv kvs)
  obtain k v where kv: "kv = (k, v)" by (cases kv) auto
  from Cons.prems have fresh: "k \<notin> fst ` set acc" and d: "distinct (map fst ((acc @ [(k, v)]) @ kvs))"
    by (auto simp: kv)
  show ?case
    using Cons.IH [OF d] by (simp add: kv update_fresh [OF fresh])
qed

lemma py_dict_distinct: "distinct (map fst kvs) \<Longrightarrow> py_dict kvs = kvs"
  unfolding py_dict_def using fold_update_distinct [of "[]" kvs] by simp

lemma py_dict_zip_distinct:
  "distinct mw \<Longrightarrow> length c = length mw \<Longrightarrow> py_dict (zip mw c) = zip mw c"
  by (rule py_dict_distinct) simp

lemma ext_div_Num: "ext_div (Num s) n = Num (rat_of_int s / rat_of_nat n)"
  by simp

lemma shortest_distance_best:
  assumes ne: "match_word Q position \<noteq> []"
    and occ: "\<forall>t \<in> set (match_word Q position). position t \<noteq> Some []"
  shows "\<exists>c. opt_among Q (match_word Q position) (combinations Q position) c
           \<and> shortest_distance Q position =
               (Num (rat_of_int (sum_int c) / rat_of_nat (max (length (match_word Q position) - 1) 1)),
                pairs_num Q (py_dict (zip (match_word Q position) c)),
                Some (py_dict (zip (match_word Q position) c)))"
proof -
  let ?mw = "match_word Q position"
  let ?ml = "match_list Q position"
  have "\<forall>xs \<in> set ?ml. xs \<noteq> []"
  proof
    fix xs assume "xs \<in> set ?ml"
    then obtain t where t: "t \<in> set ?mw" "xs = the (position t)"
      by (auto simp: match_list_def)
    then have "position t \<noteq> None" by (simp add: match_word_def)
    with t occ show "xs \<noteq> []" by auto
  qed
  then have "product_lists ?ml \<noteq> []" by (rule product_lists_nonempty)
  from fold_update_best [OF this, of Q ?mw] obtain c where
    c: "opt_among Q ?mw (set (product_lists ?ml)) c"
       "fold (update_best Q ?mw) (product_lists ?ml) (PInf, - 1, None) = best_of Q ?mw c"
    by blast
  have "shortest_distance Q position =
          (Num (rat_of_int (sum_int c) / rat_of_nat (max (length ?mw - 1) 1)),
           pairs_num Q (py_dict (zip ?mw c)), Some (py_dict (zip ?mw c)))"
    using ne by (simp add: shortest_distance_def Let_def c(2) best_of_def)
  with c(1) show ?thesis
    by (auto simp: product_lists_match_list)
qed

lemma opt_among_spread:
  assumes "opt_among Q mw S c" "c' \<in> S"
  shows "spread c \<le> spread c'"
    and "spread c' = spread c \<Longrightarrow>
           ordered_pairs Q (map_of (py_dict (zip mw c'))) \<le> ordered_pairs Q (map_of (py_dict (zip mw c)))"
  using assms by (auto simp: opt_among_def sum_int_spread pairs_num_ordered_pairs)

text \<open>
  C4. When at least two distinct query terms match and each matched term has an
  occurrence, \<open>shortest_distance\<close> returns the values of one combination \<open>c\<close> out of
  the full product of the occurrence lists: the average distance is the spread of
  \<open>c\<close> divided by \<open>max(matched terms - 1, 1)\<close>, the second component is the number of
  ordered pairs of \<open>c\<close>, the third the dictionary from the matched terms to the
  positions of \<open>c\<close>. No combination has a smaller spread, and none with the same spread
  has more ordered pairs. (For a query without repeated terms the dictionary is
  \<open>zip\<close> of the matched terms and \<open>c\<close>, lemma \<open>py_dict_zip_distinct\<close>.)
\<close>

theorem shortest_distance_minimum_spread:
  assumes two: "2 \<le> card (set (match_word Q position))"
    and occ: "\<forall>t \<in> set (match_word Q position). position t \<noteq> Some []"
  shows "\<exists>c \<in> combinations Q position.
           shortest_distance Q position =
             (Num (rat_of_int (spread c)
                   / rat_of_nat (max (length (match_word Q position) - 1) 1)),
              int (ordered_pairs Q (map_of (py_dict (zip (match_word Q position) c)))),
              Some (py_dict (zip (match_word Q position) c)))
           \<and> (\<forall>c' \<in> combinations Q position.
                 spread c \<le> spread c'
                 \<and> (spread c' = spread c \<longrightarrow>
                       ordered_pairs Q (map_of (py_dict (zip (match_word Q position) c')))
                         \<le> ordered_pairs Q (map_of (py_dict (zip (match_word Q position) c)))))"
proof -
  from two have ne: "match_word Q position \<noteq> []" by auto
  from shortest_distance_best [OF ne occ] obtain c where
    opt: "opt_among Q (match_word Q position) (combinations Q position) c"
    and res: "shortest_distance Q position =
               (Num (rat_of_int (sum_int c) / rat_of_nat (max (length (match_word Q position) - 1) 1)),
                pairs_num Q (py_dict (zip (match_word Q position) c)),
                Some (py_dict (zip (match_word Q position) c)))"
    by blast
  from opt have "c \<in> combinations Q position" by (simp add: opt_among_def)
  moreover note res [unfolded sum_int_spread pairs_num_ordered_pairs]
  moreover have "\<forall>c' \<in> combinations Q position.
                 spread c \<le> spread c'
                 \<and> (spread c' = spread c \<longrightarrow>
                       ordered_pairs Q (map_of (py_dict (zip (match_word Q position) c')))
                         \<le> ordered_pairs Q (map_of (py_dict (zip (match_word Q position) c))))"
    using opt_among_spread [OF opt] by blast
  ultimately show ?thesis by blast
qed

theorem shortest_distance_minimum_spread_witness:
  "2 \<le> card (set (match_word [''a'', ''b''] [''a'' \<mapsto> [5], ''b'' \<mapsto> [4, 6]]))
   \<and> shortest_distance [''a'', ''b''] [''a'' \<mapsto> [5], ''b'' \<mapsto> [4, 6]]
       = (Num 0, 1, Some [(''a'', 5), (''b'', 6)])
   \<and> (\<exists>c \<in> combinations [''a'', ''b''] [''a'' \<mapsto> [5], ''b'' \<mapsto> [4, 6]].
          spread c = 0
          \<and> ordered_pairs [''a'', ''b'']
               (map_of (py_dict (zip (match_word [''a'', ''b''] [''a'' \<mapsto> [5], ''b'' \<mapsto> [4, 6]]) c))) = 1
          \<and> (\<forall>c' \<in> combinations [''a'', ''b''] [''a'' \<mapsto> [5], ''b'' \<mapsto> [4, 6]]. 0 \<le> spread c'))"
proof -
  let ?Q = "[''a'', ''b'']"
  let ?pos = "[''a'' \<mapsto> [5], ''b'' \<mapsto> [4, 6]] :: string \<rightharpoonup> int list"
  have mw: "match_word ?Q ?pos = [''a'', ''b'']"
    by code_simp
  have two: "2 \<le> card (set (match_word ?Q ?pos))"
    unfolding mw by simp
  have occ: "\<forall>t \<in> set (match_word ?Q ?pos). ?pos t \<noteq> Some []"
    unfolding mw by simp
  have ev: "shortest_distance ?Q ?pos = (Num 0, 1, Some [(''a'', 5), (''b'', 6)])"
    by code_simp
  from shortest_distance_minimum_spread [OF two occ] obtain c where
    c: "c \<in> combinations ?Q ?pos"
    and res: "shortest_distance ?Q ?pos =
             (Num (rat_of_int (spread c)
                   / rat_of_nat (max (length (match_word ?Q ?pos) - 1) 1)),
              int (ordered_pairs ?Q (map_of (py_dict (zip (match_word ?Q ?pos) c)))),
              Some (py_dict (zip (match_word ?Q ?pos) c)))"
    and best: "\<forall>c' \<in> combinations ?Q ?pos. spread c \<le> spread c'"
    by blast
  from res have s: "spread c = 0"
    and p: "ordered_pairs ?Q (map_of (py_dict (zip (match_word ?Q ?pos) c))) = 1"
    unfolding ev mw by simp_all
  from c s p best two ev show ?thesis by auto
qed

lemma ordered_pairs_cong:
  assumes "\<forall>t \<in> set Q. f t = g t"
  shows "ordered_pairs Q f = ordered_pairs Q g"
proof -
  have "\<And>i. Suc i < length Q \<Longrightarrow> f (Q ! i) = g (Q ! i) \<and> f (Q ! Suc i) = g (Q ! Suc i)"
    using assms by simp
  then have "{i. Suc i < length Q \<and>
              (\<exists>p1 p2. f (Q ! i) = Some p1 \<and> f (Q ! Suc i) = Some p2 \<and> p1 < p2)}
           = {i. Suc i < length Q \<and>
              (\<exists>p1 p2. g (Q ! i) = Some p1 \<and> g (Q ! Suc i) = Some p2 \<and> p1 < p2)}"
    by auto
  then show ?thesis by (simp add: ordered_pairs_def)
qed

lemma map_of_rev_zip_map:
  "map_of (rev (zip xs (map f xs))) t = (if t \<in> set xs then Some (f t) else None)"
  by (induction xs) (auto simp: map_add_def split: option.splits)

text \<open>
  C2, as amended. When at least one query term matches and every matched term has
  exactly one position, \<open>shortest_distance\<close> returns the spread of those positions
  divided by \<open>max(matched terms - 1, 1)\<close>, and the number of adjacent pairs of the
  query whose two terms both match with the position of the first below the position
  of the second. The average distance is the spread itself only when at most two terms
  match or the spread is zero.
\<close>

theorem shortest_distance_fixed_positions:
  assumes ne: "match_word Q position \<noteq> []"
    and one: "\<forall>t \<in> set (match_word Q position). \<exists>p. position t = Some [p]"
  shows "shortest_distance Q position =
           (Num (rat_of_int (spread (map (\<lambda>t. hd (the (position t))) (match_word Q position)))
                 / rat_of_nat (max (length (match_word Q position) - 1) 1)),
            int (ordered_pairs Q (\<lambda>t. map_option hd (position t))),
            Some (py_dict (zip (match_word Q position)
                    (map (\<lambda>t. hd (the (position t))) (match_word Q position)))))"
proof -
  let ?mw = "match_word Q position"
  let ?c = "map (\<lambda>t. hd (the (position t))) ?mw"
  have "\<forall>xs \<in> set (match_list Q position). length xs = 1"
    using one by (auto simp: match_list_def)
  then have "product_lists (match_list Q position) = [map hd (match_list Q position)]"
    by (rule product_lists_single)
  also have "map hd (match_list Q position) = ?c"
    by (simp add: match_list_def)
  finally have pl: "product_lists (match_list Q position) = [?c]" .
  have res: "shortest_distance Q position =
          (Num (rat_of_int (sum_int ?c) / rat_of_nat (max (length ?mw - 1) 1)),
           pairs_num Q (py_dict (zip ?mw ?c)), Some (py_dict (zip ?mw ?c)))"
    using ne by (simp add: shortest_distance_def Let_def pl update_best_init best_of_def)
  have "\<forall>t \<in> set Q. map_of (py_dict (zip ?mw ?c)) t = map_option hd (position t)"
  proof
    fix t assume t: "t \<in> set Q"
    show "map_of (py_dict (zip ?mw ?c)) t = map_option hd (position t)"
    proof (cases "position t")
      case None
      then have "t \<notin> set ?mw" by (simp add: match_word_def)
      with None show ?thesis by (simp add: map_of_py_dict map_of_rev_zip_map)
    next
      case (Some ps)
      with t have "t \<in> set ?mw" by (simp add: match_word_def)
      with Some show ?thesis by (simp add: map_of_py_dict map_of_rev_zip_map)
    qed
  qed
  then have "ordered_pairs Q (map_of (py_dict (zip ?mw ?c)))
               = ordered_pairs Q (\<lambda>t. map_option hd (position t))"
    by (rule ordered_pairs_cong)
  with res show ?thesis
    by (simp add: sum_int_spread pairs_num_ordered_pairs)
qed

theorem shortest_distance_fixed_positions_witness:
  "match_word [''a'', ''b'', ''c''] [''a'' \<mapsto> [0], ''b'' \<mapsto> [2], ''c'' \<mapsto> [4]] \<noteq> []
   \<and> shortest_distance [''a'', ''b'', ''c''] [''a'' \<mapsto> [0], ''b'' \<mapsto> [2], ''c'' \<mapsto> [4]]
       = (Num 1, 2, Some [(''a'', 0), (''b'', 2), (''c'', 4)])
   \<and> spread [0, 2, 4] = 2
   \<and> ordered_pairs [''a'', ''b'', ''c'']
        (\<lambda>t. map_option hd ([''a'' \<mapsto> [0], ''b'' \<mapsto> [2], ''c'' \<mapsto> [4::int]] t)) = 2"
proof -
  let ?Q = "[''a'', ''b'', ''c'']"
  let ?pos = "[''a'' \<mapsto> [0], ''b'' \<mapsto> [2], ''c'' \<mapsto> [4]] :: string \<rightharpoonup> int list"
  have mw: "match_word ?Q ?pos = [''a'', ''b'', ''c'']"
    by code_simp
  have ne: "match_word ?Q ?pos \<noteq> []"
    unfolding mw by simp
  have one: "\<forall>t \<in> set (match_word ?Q ?pos). \<exists>p. ?pos t = Some [p]"
    unfolding mw by simp
  have ev: "shortest_distance ?Q ?pos = (Num 1, 2, Some [(''a'', 0), (''b'', 2), (''c'', 4)])"
    by code_simp
  have sp: "spread [0, 2, 4] = 2"
    unfolding sum_int_spread [symmetric] by code_simp
  from shortest_distance_fixed_positions [OF ne one]
  have "ordered_pairs ?Q (\<lambda>t. map_option hd (?pos t)) = 2"
    unfolding ev by simp
  with ne ev sp show ?thesis by simp
qed

text \<open>
  C2 as stated fails: with the terms \<open>a\<close>, \<open>b\<close>, \<open>c\<close> at the single positions 0, 2
  and 4 the spread is 2 and the average distance returned is 1; and with no matched
  term the average distance returned is infinite.
\<close>

theorem shortest_distance_average_counterexample:
  "map [''a'' \<mapsto> [0], ''b'' \<mapsto> [2], ''c'' \<mapsto> [4::int]] [''a'', ''b'', ''c'']
     = [Some [0], Some [2], Some [4]]
   \<and> fst (shortest_distance [''a'', ''b'', ''c''] [''a'' \<mapsto> [0], ''b'' \<mapsto> [2], ''c'' \<mapsto> [4]])
       = Num 1
   \<and> spread [0, 2, 4] = 2
   \<and> fst (shortest_distance [''a'', ''b'', ''c''] [''a'' \<mapsto> [0], ''b'' \<mapsto> [2], ''c'' \<mapsto> [4]])
       \<noteq> Num (rat_of_int (spread [0, 2, 4]))
   \<and> fst (shortest_distance [''a''] Map.empty) = PInf"
proof -
  have ev: "shortest_distance [''a'', ''b'', ''c''] [''a'' \<mapsto> [0], ''b'' \<mapsto> [2], ''c'' \<mapsto> [4]]
     = (Num 1, 2, Some [(''a'', 0), (''b'', 2), (''c'', 4)])"
    by code_simp
  have sp: "spread [0, 2, 4] = 2"
    unfolding sum_int_spread [symmetric] by code_simp
  have no: "shortest_distance [''a''] Map.empty = (PInf, 0, Some [])"
    by code_simp
  show ?thesis
    unfolding ev sp no by simp
qed

section \<open>The inverted index\<close>

lemma fold_concat_lists: "fold f (concat xss) = fold (fold f) xss"
  by (induction xss) simp_all

lemma file_index_loop_flat:
  "file_index_loop e d text fp
     = fold (\<lambda>(t, n). add_posting d n t) (doc_terms e text) (fp, 0)"
proof -
  have inner: "\<And>n ts. fold (add_posting d n) ts
                 = fold (\<lambda>(t, n). add_posting d n t) (map (\<lambda>t. (t, n)) ts)"
    by (simp add: fold_map comp_def)
  show ?thesis
    unfolding file_index_loop_def doc_terms_def fold_concat_lists fold_map inner
    by (simp add: comp_def case_prod_unfold fold_concat_lists fold_map)
qed

lemma postings_upd:
  "postings (idx(t \<mapsto> ps)) t' = (if t' = t then ps else postings idx t')"
  by (simp add: postings_def)

lemma add_posting_postings:
  "postings (inverted_index (fst (add_posting d n t (fp, p)))) t'
     = postings (inverted_index fp) t' @ (if t' = t then [(d, p, int n)] else [])"
  by (simp add: add_posting_def postings_upd)

lemma add_posting_counter: "snd (add_posting d n t (fp, p)) = p + 1"
  by (simp add: add_posting_def)

lemma fold_add_posting:
  "snd (fold (\<lambda>(t, n). add_posting d n t) tr (fp, p)) = p + int (length tr)
   \<and> postings (inverted_index (fst (fold (\<lambda>(t, n). add_posting d n t) tr (fp, p)))) t
       = postings (inverted_index fp) t
         @ map (\<lambda>(k, (t', n)). (d, p + int k, int n))
             (filter (\<lambda>(k, (t', n)). t' = t) (enumerate 0 tr))"
proof (induction tr rule: rev_induct)
  case Nil
  then show ?case by simp
next
  case (snoc x tr)
  obtain t' n where x: "x = (t', n)" by (cases x) auto
  let ?st = "fold (\<lambda>(t, n). add_posting d n t) tr (fp, p)"
  have st: "?st = (fst ?st, p + int (length tr))"
    using snoc.IH by (metis prod.collapse)
  have step: "fold (\<lambda>(t, n). add_posting d n t) (tr @ [x]) (fp, p)
                = add_posting d n t' (fst ?st, p + int (length tr))"
    using st by (simp add: x)
  show ?case
    unfolding step
    using snoc.IH
    by (simp add: add_posting_postings add_posting_counter enumerate_append_eq x)
qed

lemma file_index_postings:
  "postings (inverted_index (file_index e d text fp)) t
     = postings (inverted_index fp) t @ new_postings e d text t"
  using fold_add_posting [of d "doc_terms e text" fp 0 t]
  by (simp add: file_index_def file_index_loop_flat new_postings_def)

lemma file_index_counter:
  "snd (file_index_loop e d text fp) = int (length (doc_terms e text))"
  using fold_add_posting [of d "doc_terms e text" fp 0]
  by (simp add: file_index_loop_flat)

lemma in_new_postings:
  "p \<in> set (new_postings e d text t)
     \<longleftrightarrow> (\<exists>k n. k < length (doc_terms e text) \<and> doc_terms e text ! k = (t, n)
                \<and> p = (d, int k, int n))"
  by (auto simp: new_postings_def in_set_enumerate_eq image_iff)

lemma sorted_wrt_enumerate: "sorted_wrt (\<lambda>a b. fst a < fst b) (enumerate n xs)"
proof -
  have "sorted_wrt (<) (map fst (enumerate n xs))"
    by (simp add: map_fst_enumerate)
  then show ?thesis by (simp only: sorted_wrt_map)
qed

lemma new_postings_increasing:
  "sorted_wrt (\<lambda>p q. fst (snd p) < fst (snd q)) (new_postings e d text t)"
proof -
  have "sorted_wrt (\<lambda>a b. fst a < fst b)
          (filter (\<lambda>(k, (t', n)). t' = t) (enumerate 0 (doc_terms e text)))"
    by (rule sorted_wrt_filter) (rule sorted_wrt_enumerate)
  then show ?thesis
    by (simp add: new_postings_def sorted_wrt_map case_prod_unfold)
qed

text \<open>
  C10. While one document is indexed the position counter ends at the number of
  emitted terms; the postings the document adds to the list of a term are, in order,
  those of the emitted terms equal to it; the \<open>k\<close>-th emitted term carries the
  position \<open>k\<close>, so the positions rise strictly in emission order; and two postings
  of the document with the same position, in the lists of any two terms, are the same
  posting of the same term.
\<close>

theorem file_index_positions:
  "snd (file_index_loop e d text fp) = int (length (doc_terms e text))
   \<and> postings (inverted_index (file_index e d text fp)) t
       = postings (inverted_index fp) t @ new_postings e d text t
   \<and> (\<forall>k < length (doc_terms e text).
         (d, int k, int (snd (doc_terms e text ! k)))
           \<in> set (new_postings e d text (fst (doc_terms e text ! k))))
   \<and> sorted_wrt (\<lambda>p q. fst (snd p) < fst (snd q)) (new_postings e d text t)
   \<and> (\<forall>p \<in> set (new_postings e d text t). \<forall>q \<in> set (new_postings e d text t').
         fst (snd p) = fst (snd q) \<longrightarrow> t = t' \<and> p = q)"
proof (intro conjI)
  show "snd (file_index_loop e d text fp) = int (length (doc_terms e text))"
    by (rule file_index_counter)
  show "postings (inverted_index (file_index e d text fp)) t
       = postings (inverted_index fp) t @ new_postings e d text t"
    by (rule file_index_postings)
  show "\<forall>k < length (doc_terms e text).
         (d, int k, int (snd (doc_terms e text ! k)))
           \<in> set (new_postings e d text (fst (doc_terms e text ! k)))"
    by (auto simp: in_new_postings)
  show "sorted_wrt (\<lambda>p q. fst (snd p) < fst (snd q)) (new_postings e d text t)"
    by (rule new_postings_increasing)
  show "\<forall>p \<in> set (new_postings e d text t). \<forall>q \<in> set (new_postings e d text t').
         fst (snd p) = fst (snd q) \<longrightarrow> t = t' \<and> p = q"
    by (auto simp: in_new_postings)
qed

theorem file_index_positions_witness:
  "doc_terms toy_env (''dog cats'' @ [newline] @ ''dog'')
     = [(''dog'', 0), (''cat'', 0), (''cats'', 0), (''dog'', 1)]
   \<and> snd (file_index_loop toy_env ''7'' (''dog cats'' @ [newline] @ ''dog'') new_file_process) = 4
   \<and> postings (inverted_index
         (file_index toy_env ''7'' (''dog cats'' @ [newline] @ ''dog'') new_file_process)) ''dog''
       = [(''7'', 0, 0), (''7'', 3, 1)]
   \<and> (''7'', 2, 0) \<in> set (new_postings toy_env ''7'' (''dog cats'' @ [newline] @ ''dog'') ''cats'')"
proof -
  let ?text = "''dog cats'' @ [newline] @ ''dog''"
  have tr: "doc_terms toy_env ?text = [(''dog'', 0), (''cat'', 0), (''cats'', 0), (''dog'', 1)]"
    by code_simp
  have np: "new_postings toy_env ''7'' ?text ''dog'' = [(''7'', 0, 0), (''7'', 3, 1)]"
    by code_simp
  have old: "postings (inverted_index new_file_process) ''dog'' = []"
    by code_simp
  from file_index_positions [of toy_env "''7''" ?text new_file_process "''dog''" "''dog''"]
  have c: "snd (file_index_loop toy_env ''7'' ?text new_file_process) = int (length (doc_terms toy_env ?text))"
    and p: "postings (inverted_index (file_index toy_env ''7'' ?text new_file_process)) ''dog''
              = postings (inverted_index new_file_process) ''dog'' @ new_postings toy_env ''7'' ?text ''dog''"
    and k: "\<forall>k < length (doc_terms toy_env ?text).
              (''7'', int k, int (snd (doc_terms toy_env ?text ! k)))
                \<in> set (new_postings toy_env ''7'' ?text (fst (doc_terms toy_env ?text ! k)))"
    by blast+
  from k have "(''7'', 2, 0) \<in> set (new_postings toy_env ''7'' ?text ''cats'')"
    unfolding tr by (auto dest: spec [of _ 2])
  with tr c [unfolded tr] p [unfolded np old] show ?thesis by simp
qed

lemma build_step_postings:
  "postings (inverted_index (fst (build_step e folder name (fp, docs)))) t
     = postings (inverted_index fp) t @ entry_postings e folder t name"
  by (simp add: build_step_def entry_postings_def file_index_postings Let_def
           split: option.splits dir_entry.splits)

lemma fold_build_step_postings:
  "postings (inverted_index (fst (fold (build_step e folder) ns (fp, docs)))) t
     = postings (inverted_index fp) t @ concat (map (entry_postings e folder t) ns)"
proof (induction ns arbitrary: fp docs)
  case Nil
  then show ?case by simp
next
  case (Cons name ns)
  obtain fp' docs' where s: "build_step e folder name (fp, docs) = (fp', docs')"
    by (cases "build_step e folder name (fp, docs)") auto
  have "postings (inverted_index fp') t
          = postings (inverted_index fp) t @ entry_postings e folder t name"
    using build_step_postings [of e folder name fp docs t] by (simp add: s)
  then show ?case
    by (simp add: s Cons.IH)
qed

lemma build_index_postings:
  "postings (inverted_index (fst (build_index e folder))) t
     = concat (map (entry_postings e folder t) (sort (map fst folder)))"
proof -
  have "postings (inverted_index new_file_process) t = []"
    by (simp add: new_file_process_def postings_def)
  then show ?thesis
    unfolding build_index_def fold_build_step_postings by simp
qed

lemma entry_postings_id: "p \<in> set (entry_postings e folder t name) \<Longrightarrow> fst p = name"
  by (auto simp: entry_postings_def in_new_postings split: option.splits dir_entry.splits)

lemma entry_postings_order: "sorted_wrt posting_order (entry_postings e folder t name)"
proof (cases "map_of folder name")
  case None
  then show ?thesis by (simp add: entry_postings_def)
next
  case (Some entry)
  show ?thesis
  proof (cases entry)
    case (File body)
    have "sorted_wrt (\<lambda>p q. fst (snd p) < fst (snd q)) (new_postings e name body t)"
      by (rule new_postings_increasing)
    moreover have "\<forall>p \<in> set (new_postings e name body t). fst p = name"
      by (auto simp: in_new_postings)
    ultimately have "sorted_wrt posting_order (new_postings e name body t)"
      using sorted_wrt_mono_rel
        [of "new_postings e name body t" "\<lambda>p q. fst (snd p) < fst (snd q)" posting_order]
      by (simp add: posting_order_def)
    then show ?thesis by (simp add: entry_postings_def Some File)
  next
    case NotFile
    then show ?thesis by (simp add: entry_postings_def Some)
  qed
qed

lemma concat_entry_postings_order:
  "sorted ns \<Longrightarrow> distinct ns
   \<Longrightarrow> sorted_wrt posting_order (concat (map (entry_postings e folder t) ns))"
proof (induction ns)
  case Nil
  then show ?case by simp
next
  case (Cons name ns)
  have "\<forall>p \<in> set (entry_postings e folder t name).
          \<forall>q \<in> set (concat (map (entry_postings e folder t) ns)). posting_order p q"
  proof (intro ballI)
    fix p q
    assume p: "p \<in> set (entry_postings e folder t name)"
      and q: "q \<in> set (concat (map (entry_postings e folder t) ns))"
    from p have "fst p = name" by (rule entry_postings_id)
    moreover from q obtain name' where "name' \<in> set ns" "fst q = name'"
      using entry_postings_id by fastforce
    ultimately show "posting_order p q"
      using Cons.prems by (auto simp: posting_order_def)
  qed
  with Cons show ?case
    by (simp add: sorted_wrt_append entry_postings_order)
qed

text \<open>
  C6. In the index built from a folder (whose names are distinct, as those of a
  directory are) the postings list of a term is the concatenation, over the names in
  sorted order, of the postings each file gives to the term in the order of their
  occurrence. So the ids of the list are in file-name order, and the positions of
  the postings of one document do not fall along the list. The list is not sorted by
  position across documents: in the folder of the last two conjuncts the positions
  of \<open>dog\<close> are 0, 3 and again 1.
\<close>

theorem build_index_postings_order:
  assumes "distinct (map fst folder)"
  shows "(\<forall>t ps. inverted_index (fst (build_index e folder)) t = Some ps \<longrightarrow>
            ps = concat (map (entry_postings e folder t) (sort (map fst folder)))
            \<and> sorted (map fst ps)
            \<and> sorted_wrt (\<lambda>p q. fst p = fst q \<longrightarrow> fst (snd p) \<le> fst (snd q)) ps)
         \<and> inverted_index (fst (build_index toy_env
               [(''b.txt'', File ''cat dog''), (''sub'', NotFile),
                (''a.txt'', File (''dog cats'' @ [newline] @ ''dog''))])) ''dog''
             = Some [(''a.txt'', 0, 0), (''a.txt'', 3, 1), (''b.txt'', 1, 0)]
         \<and> \<not> sorted (map (\<lambda>p. fst (snd p))
                 [(''a.txt'', 0 :: int, 0 :: int), (''a.txt'', 3, 1), (''b.txt'', 1, 0)])"
proof (intro conjI allI impI)
  fix t ps
  assume "inverted_index (fst (build_index e folder)) t = Some ps"
  then have "postings (inverted_index (fst (build_index e folder))) t = ps"
    by (simp add: postings_def)
  then show eq: "ps = concat (map (entry_postings e folder t) (sort (map fst folder)))"
    by (simp add: build_index_postings)
  have "sorted_wrt posting_order (concat (map (entry_postings e folder t) (sort (map fst folder))))"
    using assms by (intro concat_entry_postings_order) simp_all
  then have ord: "sorted_wrt posting_order ps"
    by (simp only: eq)
  from ord show "sorted (map fst ps)"
    unfolding sorted_map
    by (rule sorted_wrt_mono_rel [rotated]) (simp add: posting_order_def)
  from ord show "sorted_wrt (\<lambda>p q. fst p = fst q \<longrightarrow> fst (snd p) \<le> fst (snd q)) ps"
    by (rule sorted_wrt_mono_rel [rotated]) (auto simp: posting_order_def)
next
  show "inverted_index (fst (build_index toy_env
               [(''b.txt'', File ''cat dog''), (''sub'', NotFile),
                (''a.txt'', File (''dog cats'' @ [newline] @ ''dog''))])) ''dog''
             = Some [(''a.txt'', 0, 0), (''a.txt'', 3, 1), (''b.txt'', 1, 0)]"
    by code_simp
next
  show "\<not> sorted (map (\<lambda>p. fst (snd p))
                 [(''a.txt'', 0 :: int, 0 :: int), (''a.txt'', 3, 1), (''b.txt'', 1, 0)])"
    by simp
qed

theorem build_index_postings_order_witness:
  "distinct (map fst [(''2'', File ''wolves run''), (''10'', File (''a wolf'' @ [newline] @ ''wolves wolf''))])
   \<and> inverted_index (fst (build_index toy_env
        [(''2'', File ''wolves run''), (''10'', File (''a wolf'' @ [newline] @ ''wolves wolf''))])) ''wolves''
       = Some [(''10'', 3, 1), (''2'', 1, 0)]
   \<and> sorted (map fst [(''10'', 3 :: int, 1 :: int), (''2'', 1, 0)])
   \<and> inverted_index (fst (build_index toy_env
        [(''2'', File ''wolves run''), (''10'', File (''a wolf'' @ [newline] @ ''wolves wolf''))])) ''wolf''
       = Some [(''10'', 1, 0), (''10'', 4, 1)]
   \<and> sorted_wrt (\<lambda>p q. fst p = fst q \<longrightarrow> fst (snd p) \<le> fst (snd q))
        [(''10'', 1 :: int, 0 :: int), (''10'', 4, 1)]"
proof -
  let ?folder = "[(''2'', File ''wolves run''), (''10'', File (''a wolf'' @ [newline] @ ''wolves wolf''))]"
  have d: "distinct (map fst ?folder)"
    by simp
  have ev1: "inverted_index (fst (build_index toy_env ?folder)) ''wolves''
               = Some [(''10'', 3, 1), (''2'', 1, 0)]"
    by code_simp
  have ev2: "inverted_index (fst (build_index toy_env ?folder)) ''wolf''
               = Some [(''10'', 1, 0), (''10'', 4, 1)]"
    by code_simp
  from build_index_postings_order [OF d, of toy_env] ev1 ev2 d
  show ?thesis by blast
qed

section \<open>The order of the root expansion\<close>




















end
